theory Spec2Isabelle
  imports Main "HOL-Library.Word"
begin

unbundle bit_operations_syntax

section \<open>Common conventions\<close>

text \<open>
  The development embeds the network core of the muduo library: the byte buffer
  (\<^verbatim>\<open>muduo/net/Buffer.h\<close>, \<^verbatim>\<open>Buffer.cc\<close>), the socket handle
  (\<^verbatim>\<open>Socket.cc\<close>, \<^verbatim>\<open>SocketsOps.cc\<close>), the acceptor (\<^verbatim>\<open>Acceptor.cc\<close>) and the
  connection state machine (\<^verbatim>\<open>TcpConnection.cc\<close>).

  \<^item> A \<^verbatim>\<open>size_t\<close> is a \<open>nat\<close>. Every size that occurs is the size of an object that
    exists in memory (the backing vector, the data handed to \<^verbatim>\<open>append\<close>), so sums of
    them stay below \<open>2 ^ 64\<close>. The two subtractions that the source performs without a
    guard (\<^verbatim>\<open>readableBytes\<close>, \<^verbatim>\<open>writableBytes\<close>) are written with the wrap-around of
    \<^verbatim>\<open>size_t\<close> spelled out (\<open>size_sub\<close>).
  \<^item> \<^verbatim>\<open>assert\<close> is active: a failed assertion aborts, which is the value
    \<open>Inl AssertFail\<close>. \<^verbatim>\<open>LOG_FATAL\<close> aborts as well (\<^verbatim>\<open>Logger::~Logger\<close> calls
    \<^verbatim>\<open>abort()\<close> at level \<^verbatim>\<open>FATAL\<close>): \<open>Inl LogFatal\<close>. The text of the log is not part
    of the model, but what writing it does to \<^verbatim>\<open>errno\<close> is (\<open>LOG_SYSERR\<close> below).
  \<^item> The kernel is the environment: what a system call returns is an argument of the
    function that issues it; for the acceptor, which makes several calls in a row, it is
    the answer of a small model of the kernel's descriptor table and listen queue.
\<close>

type_synonym byte = "8 word"

datatype error = AssertFail | LogFatal

definition size_sub :: "nat \<Rightarrow> nat \<Rightarrow> nat" where
  "size_sub a b = (if b \<le> a then a - b else a + 2 ^ 64 - b)"

text \<open>
  \<^verbatim>\<open>LOG_SYSERR << ...\<close> builds a \<^verbatim>\<open>Logger\<close> whose destructor hands the line to \<^verbatim>\<open>g_output\<close>
  (\<^verbatim>\<open>fwrite\<close> on \<^verbatim>\<open>stdout\<close> by default). That write belongs to the environment: it leaves
  \<^verbatim>\<open>errno\<close> alone or sets it (to \<^verbatim>\<open>EBADF\<close> when \<^verbatim>\<open>stdout\<close> is closed, say).
  \<open>LOG_SYSERR l errno\<close> is the value of \<^verbatim>\<open>errno\<close> after the line has been written.
  \<^verbatim>\<open>sockets::accept\<close> and \<^verbatim>\<open>TcpConnection::handleRead\<close> save \<^verbatim>\<open>errno\<close> before the macro and
  use the saved value.
\<close>

datatype log_effect = LogKeepsErrno | LogSetsErrno int

definition LOG_SYSERR :: "log_effect \<Rightarrow> int \<Rightarrow> int" where
  "LOG_SYSERR l errno = (case l of LogKeepsErrno \<Rightarrow> errno | LogSetsErrno e \<Rightarrow> e)"

section \<open>Byte buffer (Buffer.h)\<close>

text \<open>The members \<^verbatim>\<open>buffer_\<close>, \<^verbatim>\<open>readerIndex_\<close>, \<^verbatim>\<open>writerIndex_\<close>; a name cannot end in an underscore here.\<close>

record Buffer =
  buffer :: "byte list"
  readerIndex :: nat
  writerIndex :: nat

definition kCheapPrepend :: nat where
  "kCheapPrepend = 8"

definition kInitialSize :: nat where
  "kInitialSize = 1024"

definition readableBytes :: "Buffer \<Rightarrow> nat" where
  "readableBytes b = size_sub (writerIndex b) (readerIndex b)"

definition writableBytes :: "Buffer \<Rightarrow> nat" where
  "writableBytes b = size_sub (length (buffer b)) (writerIndex b)"

definition prependableBytes :: "Buffer \<Rightarrow> nat" where
  "prependableBytes b = readerIndex b"

text \<open>
  The constructor \<^verbatim>\<open>Buffer(initialSize)\<close> with its three assertions. Its argument is a
  \<^verbatim>\<open>size_t\<close>, a number below \<open>2 ^ 64\<close>, and so is the sum \<^verbatim>\<open>kCheapPrepend + initialSize\<close>
  that sizes the vector: it wraps around.
\<close>

definition Buffer_ctor :: "nat \<Rightarrow> error + Buffer" where
  "Buffer_ctor initialSize =
     (let b = \<lparr> buffer = replicate ((kCheapPrepend + initialSize) mod 2 ^ 64) 0,
                 readerIndex = kCheapPrepend,
                 writerIndex = kCheapPrepend \<rparr>
      in if readableBytes b = 0 \<and> writableBytes b = initialSize
            \<and> prependableBytes b = kCheapPrepend
         then Inr b else Inl AssertFail)"

text \<open>
  \<^verbatim>\<open>std::copy(first, last, out)\<close> assigns element by element, front to back. \<open>std_copy\<close>
  copies from outside the buffer, \<open>copy_within\<close> copies a range of the buffer onto the
  buffer itself, as \<^verbatim>\<open>makeSpace\<close> does.
\<close>

fun std_copy :: "byte list \<Rightarrow> byte list \<Rightarrow> nat \<Rightarrow> byte list" where
  "std_copy [] buf d = buf"
| "std_copy (x # xs) buf d = std_copy xs (buf[d := x]) (Suc d)"

fun copy_within :: "byte list \<Rightarrow> nat \<Rightarrow> nat \<Rightarrow> nat \<Rightarrow> byte list" where
  "copy_within buf s d 0 = buf"
| "copy_within buf s d (Suc n) = copy_within (buf[d := buf ! s]) (Suc s) (Suc d) n"

text \<open>\<^verbatim>\<open>std::vector<char>::resize(n)\<close>: truncate, or extend with zero bytes.\<close>

definition resize :: "byte list \<Rightarrow> nat \<Rightarrow> byte list" where
  "resize xs n = take n xs @ replicate (n - length xs) 0"

text \<open>The readable content: \<^verbatim>\<open>readableBytes()\<close> bytes from \<^verbatim>\<open>peek()\<close>.\<close>

definition peek_bytes :: "Buffer \<Rightarrow> nat \<Rightarrow> byte list" where
  "peek_bytes b n = take n (drop (readerIndex b) (buffer b))"

definition readable :: "Buffer \<Rightarrow> byte list" where
  "readable b = peek_bytes b (readableBytes b)"

definition retrieveAll :: "Buffer \<Rightarrow> Buffer" where
  "retrieveAll b = b\<lparr> readerIndex := kCheapPrepend, writerIndex := kCheapPrepend \<rparr>"

definition retrieve :: "nat \<Rightarrow> Buffer \<Rightarrow> error + Buffer" where
  "retrieve len b =
     (if len \<le> readableBytes b
      then (if len < readableBytes b
            then Inr (b\<lparr> readerIndex := readerIndex b + len \<rparr>)
            else Inr (retrieveAll b))
      else Inl AssertFail)"

definition hasWritten :: "nat \<Rightarrow> Buffer \<Rightarrow> error + Buffer" where
  "hasWritten len b =
     (if len \<le> writableBytes b
      then Inr (b\<lparr> writerIndex := writerIndex b + len \<rparr>)
      else Inl AssertFail)"

definition unwrite :: "nat \<Rightarrow> Buffer \<Rightarrow> error + Buffer" where
  "unwrite len b =
     (if len \<le> readableBytes b
      then Inr (b\<lparr> writerIndex := writerIndex b - len \<rparr>)
      else Inl AssertFail)"

text \<open>
  \<^verbatim>\<open>makeSpace\<close> and \<^verbatim>\<open>ensureWritableBytes\<close> are modelled for the calls that \<^verbatim>\<open>append\<close> makes:
  \<open>len\<close> is the length of data that lies in memory next to the buffer, so neither
  \<^verbatim>\<open>writerIndex_ + len\<close> nor \<^verbatim>\<open>len + kCheapPrepend\<close> wraps around.
\<close>

definition makeSpace :: "nat \<Rightarrow> Buffer \<Rightarrow> error + Buffer" where
  "makeSpace len b =
     (if writableBytes b + prependableBytes b < len + kCheapPrepend
      then Inr (b\<lparr> buffer := resize (buffer b) (writerIndex b + len) \<rparr>)
      else if kCheapPrepend < readerIndex b
      then (let rd = readableBytes b;
                b' = b\<lparr> buffer := copy_within (buffer b) (readerIndex b) kCheapPrepend
                                      (writerIndex b - readerIndex b),
                        readerIndex := kCheapPrepend,
                        writerIndex := kCheapPrepend + rd \<rparr>
            in if rd = readableBytes b' then Inr b' else Inl AssertFail)
      else Inl AssertFail)"

definition ensureWritableBytes :: "nat \<Rightarrow> Buffer \<Rightarrow> error + Buffer" where
  "ensureWritableBytes len b =
     (case (if writableBytes b < len then makeSpace len b else Inr b) of
        Inl e \<Rightarrow> Inl e
      | Inr b' \<Rightarrow> if len \<le> writableBytes b' then Inr b' else Inl AssertFail)"

definition append :: "byte list \<Rightarrow> Buffer \<Rightarrow> error + Buffer" where
  "append data b =
     (case ensureWritableBytes (length data) b of
        Inl e \<Rightarrow> Inl e
      | Inr b' \<Rightarrow>
          hasWritten (length data)
            (b'\<lparr> buffer := std_copy data (buffer b') (writerIndex b') \<rparr>))"

definition prepend :: "byte list \<Rightarrow> Buffer \<Rightarrow> error + Buffer" where
  "prepend data b =
     (if length data \<le> prependableBytes b
      then (let r = readerIndex b - length data
            in Inr (b\<lparr> readerIndex := r, buffer := std_copy data (buffer b) r \<rparr>))
      else Inl AssertFail)"


definition retrieveAsString :: "nat \<Rightarrow> Buffer \<Rightarrow> error + (byte list \<times> Buffer)" where
  "retrieveAsString len b =
     (if len \<le> readableBytes b
      then (let result = peek_bytes b len
            in case retrieve len b of Inl e \<Rightarrow> Inl e | Inr b' \<Rightarrow> Inr (result, b'))
      else Inl AssertFail)"

definition retrieveAllAsString :: "Buffer \<Rightarrow> error + (byte list \<times> Buffer)" where
  "retrieveAllAsString b = retrieveAsString (readableBytes b) b"

subsection \<open>Integers in network byte order\<close>

text \<open>
  An \<^verbatim>\<open>intN_t\<close> is an \<open>N word\<close>. \<open>be_bytes n w\<close> are the \<open>n\<close> low bytes of \<open>w\<close>, most
  significant first, and \<open>from_be\<close> reads such bytes back. \<open>mem_bytes e n w\<close> is the object
  representation of \<open>w\<close> in the memory of a host of endianness \<open>e\<close>: what
  \<^verbatim>\<open>append(&x, sizeof x)\<close> copies out of the variable and what \<^verbatim>\<open>memcpy(&x, peek(), sizeof x)\<close>
  copies into it (\<open>mem_value\<close>).
\<close>

datatype endian = LittleEndian | BigEndian

fun be_bytes :: "nat \<Rightarrow> 'a::len word \<Rightarrow> byte list" where
  "be_bytes 0 w = []"
| "be_bytes (Suc n) w = be_bytes n (drop_bit 8 w) @ [ucast w]"

definition from_be :: "byte list \<Rightarrow> 'a::len word" where
  "from_be bs = foldl (\<lambda>acc b. push_bit 8 acc OR ucast b) 0 bs"

definition mem_bytes :: "endian \<Rightarrow> nat \<Rightarrow> 'a::len word \<Rightarrow> byte list" where
  "mem_bytes e n w =
     (case e of BigEndian \<Rightarrow> be_bytes n w | LittleEndian \<Rightarrow> rev (be_bytes n w))"

definition mem_value :: "endian \<Rightarrow> byte list \<Rightarrow> 'a::len word" where
  "mem_value e bs =
     (case e of BigEndian \<Rightarrow> from_be bs | LittleEndian \<Rightarrow> from_be (rev bs))"

definition byte_swap :: "nat \<Rightarrow> 'a::len word \<Rightarrow> 'a word" where
  "byte_swap n w = from_be (rev (be_bytes n w))"

text \<open>
  Modelled from the spec: \<^verbatim>\<open>muduo/net/Endian.h\<close> (\<^verbatim>\<open>sockets::hostToNetworkN\<close>,
  \<^verbatim>\<open>sockets::networkToHostN\<close>) is not among the sources. The specification says that
  integer append, peek and read use network byte order whatever the host is: the
  conversion (\<^verbatim>\<open>htobeN\<close>, \<^verbatim>\<open>beNtoh\<close>) swaps the bytes on a little-endian host and is the
  identity on a big-endian one.
\<close>

definition hostToNetwork :: "endian \<Rightarrow> nat \<Rightarrow> 'a::len word \<Rightarrow> 'a word" where
  "hostToNetwork e n x = (case e of LittleEndian \<Rightarrow> byte_swap n x | BigEndian \<Rightarrow> x)"

definition networkToHost :: "endian \<Rightarrow> nat \<Rightarrow> 'a::len word \<Rightarrow> 'a word" where
  "networkToHost e n x = (case e of LittleEndian \<Rightarrow> byte_swap n x | BigEndian \<Rightarrow> x)"

definition hostToNetwork64 :: "endian \<Rightarrow> 64 word \<Rightarrow> 64 word" where
  "hostToNetwork64 e x = hostToNetwork e 8 x"

definition hostToNetwork32 :: "endian \<Rightarrow> 32 word \<Rightarrow> 32 word" where
  "hostToNetwork32 e x = hostToNetwork e 4 x"

definition hostToNetwork16 :: "endian \<Rightarrow> 16 word \<Rightarrow> 16 word" where
  "hostToNetwork16 e x = hostToNetwork e 2 x"

definition networkToHost64 :: "endian \<Rightarrow> 64 word \<Rightarrow> 64 word" where
  "networkToHost64 e x = networkToHost e 8 x"

definition networkToHost32 :: "endian \<Rightarrow> 32 word \<Rightarrow> 32 word" where
  "networkToHost32 e x = networkToHost e 4 x"

definition networkToHost16 :: "endian \<Rightarrow> 16 word \<Rightarrow> 16 word" where
  "networkToHost16 e x = networkToHost e 2 x"

definition appendInt64 :: "endian \<Rightarrow> 64 word \<Rightarrow> Buffer \<Rightarrow> error + Buffer" where
  "appendInt64 e x b = (let be64 = hostToNetwork64 e x in append (mem_bytes e 8 be64) b)"

definition appendInt32 :: "endian \<Rightarrow> 32 word \<Rightarrow> Buffer \<Rightarrow> error + Buffer" where
  "appendInt32 e x b = (let be32 = hostToNetwork32 e x in append (mem_bytes e 4 be32) b)"

definition appendInt16 :: "endian \<Rightarrow> 16 word \<Rightarrow> Buffer \<Rightarrow> error + Buffer" where
  "appendInt16 e x b = (let be16 = hostToNetwork16 e x in append (mem_bytes e 2 be16) b)"

definition appendInt8 :: "8 word \<Rightarrow> Buffer \<Rightarrow> error + Buffer" where
  "appendInt8 x b = append [x] b"

definition prependInt64 :: "endian \<Rightarrow> 64 word \<Rightarrow> Buffer \<Rightarrow> error + Buffer" where
  "prependInt64 e x b = (let be64 = hostToNetwork64 e x in prepend (mem_bytes e 8 be64) b)"

definition prependInt32 :: "endian \<Rightarrow> 32 word \<Rightarrow> Buffer \<Rightarrow> error + Buffer" where
  "prependInt32 e x b = (let be32 = hostToNetwork32 e x in prepend (mem_bytes e 4 be32) b)"

definition prependInt16 :: "endian \<Rightarrow> 16 word \<Rightarrow> Buffer \<Rightarrow> error + Buffer" where
  "prependInt16 e x b = (let be16 = hostToNetwork16 e x in prepend (mem_bytes e 2 be16) b)"

definition prependInt8 :: "8 word \<Rightarrow> Buffer \<Rightarrow> error + Buffer" where
  "prependInt8 x b = prepend [x] b"

definition peekInt64 :: "endian \<Rightarrow> Buffer \<Rightarrow> error + 64 word" where
  "peekInt64 e b =
     (if 8 \<le> readableBytes b
      then (let be64 = mem_value e (peek_bytes b 8) in Inr (networkToHost64 e be64))
      else Inl AssertFail)"

definition peekInt32 :: "endian \<Rightarrow> Buffer \<Rightarrow> error + 32 word" where
  "peekInt32 e b =
     (if 4 \<le> readableBytes b
      then (let be32 = mem_value e (peek_bytes b 4) in Inr (networkToHost32 e be32))
      else Inl AssertFail)"

definition peekInt16 :: "endian \<Rightarrow> Buffer \<Rightarrow> error + 16 word" where
  "peekInt16 e b =
     (if 2 \<le> readableBytes b
      then (let be16 = mem_value e (peek_bytes b 2) in Inr (networkToHost16 e be16))
      else Inl AssertFail)"

definition peekInt8 :: "Buffer \<Rightarrow> error + 8 word" where
  "peekInt8 b =
     (if 1 \<le> readableBytes b then Inr (buffer b ! readerIndex b) else Inl AssertFail)"

definition retrieveInt64 :: "Buffer \<Rightarrow> error + Buffer" where
  "retrieveInt64 b = retrieve 8 b"

definition retrieveInt32 :: "Buffer \<Rightarrow> error + Buffer" where
  "retrieveInt32 b = retrieve 4 b"

definition retrieveInt16 :: "Buffer \<Rightarrow> error + Buffer" where
  "retrieveInt16 b = retrieve 2 b"

definition retrieveInt8 :: "Buffer \<Rightarrow> error + Buffer" where
  "retrieveInt8 b = retrieve 1 b"

definition readInt64 :: "endian \<Rightarrow> Buffer \<Rightarrow> error + (64 word \<times> Buffer)" where
  "readInt64 e b =
     (case peekInt64 e b of Inl err \<Rightarrow> Inl err
      | Inr result \<Rightarrow>
          (case retrieveInt64 b of Inl err \<Rightarrow> Inl err | Inr b' \<Rightarrow> Inr (result, b')))"

definition readInt32 :: "endian \<Rightarrow> Buffer \<Rightarrow> error + (32 word \<times> Buffer)" where
  "readInt32 e b =
     (case peekInt32 e b of Inl err \<Rightarrow> Inl err
      | Inr result \<Rightarrow>
          (case retrieveInt32 b of Inl err \<Rightarrow> Inl err | Inr b' \<Rightarrow> Inr (result, b')))"

definition readInt16 :: "endian \<Rightarrow> Buffer \<Rightarrow> error + (16 word \<times> Buffer)" where
  "readInt16 e b =
     (case peekInt16 e b of Inl err \<Rightarrow> Inl err
      | Inr result \<Rightarrow>
          (case retrieveInt16 b of Inl err \<Rightarrow> Inl err | Inr b' \<Rightarrow> Inr (result, b')))"

definition readInt8 :: "Buffer \<Rightarrow> error + (8 word \<times> Buffer)" where
  "readInt8 b =
     (case peekInt8 b of Inl err \<Rightarrow> Inl err
      | Inr result \<Rightarrow>
          (case retrieveInt8 b of Inl err \<Rightarrow> Inl err | Inr b' \<Rightarrow> Inr (result, b')))"

text \<open>The four widths under one type, to speak about sequences of typed calls.\<close>

datatype ival = I8 "8 word" | I16 "16 word" | I32 "32 word" | I64 "64 word"

datatype width = W8 | W16 | W32 | W64

fun width_of :: "ival \<Rightarrow> width" where
  "width_of (I8 x) = W8"
| "width_of (I16 x) = W16"
| "width_of (I32 x) = W32"
| "width_of (I64 x) = W64"

fun width_bytes :: "width \<Rightarrow> nat" where
  "width_bytes W8 = 1"
| "width_bytes W16 = 2"
| "width_bytes W32 = 4"
| "width_bytes W64 = 8"

fun appendInt :: "endian \<Rightarrow> ival \<Rightarrow> Buffer \<Rightarrow> error + Buffer" where
  "appendInt e (I8 x) b = appendInt8 x b"
| "appendInt e (I16 x) b = appendInt16 e x b"
| "appendInt e (I32 x) b = appendInt32 e x b"
| "appendInt e (I64 x) b = appendInt64 e x b"

fun prependInt :: "endian \<Rightarrow> ival \<Rightarrow> Buffer \<Rightarrow> error + Buffer" where
  "prependInt e (I8 x) b = prependInt8 x b"
| "prependInt e (I16 x) b = prependInt16 e x b"
| "prependInt e (I32 x) b = prependInt32 e x b"
| "prependInt e (I64 x) b = prependInt64 e x b"

fun peekInt :: "endian \<Rightarrow> width \<Rightarrow> Buffer \<Rightarrow> error + ival" where
  "peekInt e W8 b = map_sum id I8 (peekInt8 b)"
| "peekInt e W16 b = map_sum id I16 (peekInt16 e b)"
| "peekInt e W32 b = map_sum id I32 (peekInt32 e b)"
| "peekInt e W64 b = map_sum id I64 (peekInt64 e b)"

fun readInt :: "endian \<Rightarrow> width \<Rightarrow> Buffer \<Rightarrow> error + (ival \<times> Buffer)" where
  "readInt e W8 b = map_sum id (map_prod I8 id) (readInt8 b)"
| "readInt e W16 b = map_sum id (map_prod I16 id) (readInt16 e b)"
| "readInt e W32 b = map_sum id (map_prod I32 id) (readInt32 e b)"
| "readInt e W64 b = map_sum id (map_prod I64 id) (readInt64 e b)"

subsection \<open>Reading from a descriptor (Buffer.cc)\<close>

text \<open>
  What \<^verbatim>\<open>readv(2)\<close> finds on the descriptor: an error with its \<^verbatim>\<open>errno\<close>, or the bytes the
  kernel is ready to deliver. The kernel fills the vectors in order and returns the
  number of bytes it stored, never more than the vectors hold.
\<close>

datatype fd_input = FdError int | FdData "byte list"

fun scatter :: "nat list \<Rightarrow> byte list \<Rightarrow> byte list list" where
  "scatter [] d = []"
| "scatter (l # ls) d = take l d # scatter ls (drop l d)"

definition sockets_readv :: "fd_input \<Rightarrow> nat list \<Rightarrow> int + byte list list" where
  "sockets_readv inp iov =
     (case inp of FdError errno \<Rightarrow> Inl errno | FdData d \<Rightarrow> Inr (scatter iov d))"

definition extrabuf_size :: nat where
  "extrabuf_size = 65536"

definition readFd_iovcnt :: "Buffer \<Rightarrow> nat" where
  "readFd_iovcnt b = (if writableBytes b < extrabuf_size then 2 else 1)"

text \<open>
  \<open>readFd inp savedErrno b\<close> returns the result \<open>n\<close> of \<^verbatim>\<open>readv\<close>, the value of
  \<^verbatim>\<open>*savedErrno\<close> afterwards and the buffer. The first chunk is what the kernel stored
  at \<^verbatim>\<open>begin()+writerIndex_\<close>, the second what it stored in \<^verbatim>\<open>extrabuf\<close>.
\<close>

definition readFd :: "fd_input \<Rightarrow> int \<Rightarrow> Buffer \<Rightarrow> error + (int \<times> int \<times> Buffer)" where
  "readFd inp savedErrno b =
     (let writable = writableBytes b;
          vec = [writable, extrabuf_size];
          iovcnt = readFd_iovcnt b
      in case sockets_readv inp (take iovcnt vec) of
           Inl errno \<Rightarrow> Inr (- 1, errno, b)
         | Inr chunks \<Rightarrow>
             (let n = sum_list (map length chunks);
                  tail = (case chunks of [] \<Rightarrow> [] | c # cs \<Rightarrow> c);
                  extrabuf = (case chunks of [] \<Rightarrow> [] | c # cs \<Rightarrow> concat cs);
                  b1 = b\<lparr> buffer := std_copy tail (buffer b) (writerIndex b) \<rparr>
              in if n \<le> writable
                 then Inr (int n, savedErrno, b1\<lparr> writerIndex := writerIndex b1 + n \<rparr>)
                 else (case append (take (n - writable) extrabuf)
                              (b1\<lparr> writerIndex := length (buffer b1) \<rparr>) of
                         Inl err \<Rightarrow> Inl err
                       | Inr b2 \<Rightarrow> Inr (int n, savedErrno, b2))))"

subsection \<open>Sequences of buffer operations\<close>

datatype buf_op =
    OpAppend "byte list"
  | OpPrepend "byte list"
  | OpRetrieve nat
  | OpRetrieveAll
  | OpHasWritten nat
  | OpUnwrite nat
  | OpAppendInt ival
  | OpPrependInt ival
  | OpPeekInt width
  | OpReadInt width
  | OpReadFd fd_input
  | OpRetrieveAsString nat
  | OpRetrieveAllAsString

fun apply_op :: "endian \<Rightarrow> buf_op \<Rightarrow> Buffer \<Rightarrow> error + Buffer" where
  "apply_op e (OpAppend d) b = append d b"
| "apply_op e (OpPrepend d) b = prepend d b"
| "apply_op e (OpRetrieve n) b = retrieve n b"
| "apply_op e OpRetrieveAll b = Inr (retrieveAll b)"
| "apply_op e (OpHasWritten n) b = hasWritten n b"
| "apply_op e (OpUnwrite n) b = unwrite n b"
| "apply_op e (OpAppendInt v) b = appendInt e v b"
| "apply_op e (OpPrependInt v) b = prependInt e v b"
| "apply_op e (OpPeekInt w) b = map_sum id (\<lambda>v. b) (peekInt e w b)"
| "apply_op e (OpReadInt w) b = map_sum id snd (readInt e w b)"
| "apply_op e (OpReadFd inp) b = map_sum id (\<lambda>(n, errno, b'). b') (readFd inp 0 b)"
| "apply_op e (OpRetrieveAsString n) b = map_sum id snd (retrieveAsString n b)"
| "apply_op e OpRetrieveAllAsString b = map_sum id snd (retrieveAllAsString b)"

fun apply_ops :: "endian \<Rightarrow> buf_op list \<Rightarrow> Buffer \<Rightarrow> error + Buffer" where
  "apply_ops e [] b = Inr b"
| "apply_ops e (x # xs) b =
     (case apply_op e x b of Inl err \<Rightarrow> Inl err | Inr b' \<Rightarrow> apply_ops e xs b')"

definition run_buffer :: "endian \<Rightarrow> nat \<Rightarrow> buf_op list \<Rightarrow> error + Buffer" where
  "run_buffer e initialSize ops =
     (case Buffer_ctor initialSize of Inl err \<Rightarrow> Inl err | Inr b \<Rightarrow> apply_ops e ops b)"

text \<open>
  Typed writes and reads interleaved: \<open>run_ints\<close> returns the values read, in order.
  \<open>fifo_ints\<close> is the queue that the calls are meant to implement: a write enqueues, a
  read of the width of the oldest value dequeues it; a read that does not match has no
  meaning (\<open>None\<close>).
\<close>

datatype int_op = WriteInt ival | ReadInt width

fun run_ints :: "endian \<Rightarrow> int_op list \<Rightarrow> Buffer \<Rightarrow> error + (ival list \<times> Buffer)" where
  "run_ints e [] b = Inr ([], b)"
| "run_ints e (WriteInt v # ops) b =
     (case appendInt e v b of Inl err \<Rightarrow> Inl err | Inr b' \<Rightarrow> run_ints e ops b')"
| "run_ints e (ReadInt w # ops) b =
     (case readInt e w b of Inl err \<Rightarrow> Inl err
      | Inr (v, b') \<Rightarrow>
          (case run_ints e ops b' of Inl err \<Rightarrow> Inl err
           | Inr (vs, b'') \<Rightarrow> Inr (v # vs, b'')))"

fun fifo_ints :: "int_op list \<Rightarrow> ival list \<Rightarrow> (ival list \<times> ival list) option" where
  "fifo_ints [] q = Some ([], q)"
| "fifo_ints (WriteInt v # ops) q = fifo_ints ops (q @ [v])"
| "fifo_ints (ReadInt w # ops) q =
     (case q of [] \<Rightarrow> None
      | v # q' \<Rightarrow>
          if width_of v = w
          then (case fifo_ints ops q' of None \<Rightarrow> None
                | Some (vs, q'') \<Rightarrow> Some (v # vs, q''))
          else None)"

text \<open>The bytes on the wire of a value: big-endian, whatever the host.\<close>

fun wire :: "ival \<Rightarrow> byte list" where
  "wire (I8 x) = [x]"
| "wire (I16 x) = be_bytes 2 x"
| "wire (I32 x) = be_bytes 4 x"
| "wire (I64 x) = be_bytes 8 x"


section \<open>Socket handle (Socket.cc, SocketsOps.cc)\<close>

text \<open>The values of \<^verbatim>\<open>errno\<close> that the sources name, as Linux defines them.\<close>

definition EPERM :: int where "EPERM = 1"
definition EINTR :: int where "EINTR = 4"
definition EBADF :: int where "EBADF = 9"
definition EAGAIN :: int where "EAGAIN = 11"
definition EWOULDBLOCK :: int where "EWOULDBLOCK = 11"
definition ENOMEM :: int where "ENOMEM = 12"
definition EFAULT :: int where "EFAULT = 14"
definition EINVAL :: int where "EINVAL = 22"
definition ENFILE :: int where "ENFILE = 23"
definition EMFILE :: int where "EMFILE = 24"
definition EPIPE :: int where "EPIPE = 32"
definition EPROTO :: int where "EPROTO = 71"
definition ENOTSOCK :: int where "ENOTSOCK = 88"
definition EOPNOTSUPP :: int where "EOPNOTSUPP = 95"
definition ECONNABORTED :: int where "ECONNABORTED = 103"
definition ECONNRESET :: int where "ECONNRESET = 104"
definition ENOBUFS :: int where "ENOBUFS = 105"

text \<open>
  A \<^verbatim>\<open>struct sockaddr_in6\<close> is its 28 bytes, and an \<^verbatim>\<open>InetAddress\<close> is the address it
  holds (\<^verbatim>\<open>setSockAddrInet6\<close> stores its argument). What \<^verbatim>\<open>accept4(2)\<close> does is the
  environment: a new descriptor (not negative) with the peer's address, or \<open>-1\<close> with an
  \<^verbatim>\<open>errno\<close>, the address argument untouched.
\<close>

type_synonym sockaddr_in6 = "byte list"

type_synonym InetAddress = sockaddr_in6

datatype accept_result = AcceptOk nat sockaddr_in6 | AcceptErr int

definition memZero_sockaddr_in6 :: sockaddr_in6 where
  "memZero_sockaddr_in6 = replicate 28 0"

definition setSockAddrInet6 :: "sockaddr_in6 \<Rightarrow> InetAddress \<Rightarrow> InetAddress" where
  "setSockAddrInet6 addr6 peeraddr = addr6"

text \<open>
  \<open>sockets_accept r addr errno\<close> returns the descriptor, \<^verbatim>\<open>*addr\<close> and \<^verbatim>\<open>errno\<close>
  afterwards. The \<^verbatim>\<open>switch\<close> on the saved \<^verbatim>\<open>errno\<close> is kept case by case.
\<close>

definition sockets_accept ::
  "accept_result \<Rightarrow> sockaddr_in6 \<Rightarrow> int \<Rightarrow> error + (int \<times> sockaddr_in6 \<times> int)" where
  "sockets_accept r addr errno =
     (case r of
        AcceptOk fd peer \<Rightarrow> Inr (int fd, peer, errno)
      | AcceptErr savedErrno \<Rightarrow>
          (if savedErrno = EAGAIN \<or> savedErrno = ECONNABORTED \<or> savedErrno = EINTR
              \<or> savedErrno = EPROTO \<or> savedErrno = EPERM \<or> savedErrno = EMFILE
           then Inr (- 1, addr, savedErrno)
           else if savedErrno = EBADF \<or> savedErrno = EFAULT \<or> savedErrno = EINVAL
              \<or> savedErrno = ENFILE \<or> savedErrno = ENOBUFS \<or> savedErrno = ENOMEM
              \<or> savedErrno = ENOTSOCK \<or> savedErrno = EOPNOTSUPP
           then Inl LogFatal
           else Inl LogFatal))"

definition Socket_accept ::
  "accept_result \<Rightarrow> InetAddress \<Rightarrow> int \<Rightarrow> error + (int \<times> InetAddress \<times> int)" where
  "Socket_accept r peeraddr errno =
     (let addr = memZero_sockaddr_in6
      in case sockets_accept r addr errno of
           Inl err \<Rightarrow> Inl err
         | Inr (connfd, addr', errno') \<Rightarrow>
             if 0 \<le> connfd
             then Inr (connfd, setSockAddrInet6 addr' peeraddr, errno')
             else Inr (connfd, peeraddr, errno'))"

text \<open>
  The values of \<^verbatim>\<open>errno\<close> in the first group of cases of the \<^verbatim>\<open>switch\<close> in
  \<^verbatim>\<open>sockets::accept\<close>, after which the function returns.
\<close>

definition accept_transient :: "int \<Rightarrow> bool" where
  "accept_transient errno =
     (errno = EAGAIN \<or> errno = ECONNABORTED \<or> errno = EINTR \<or> errno = EPROTO
      \<or> errno = EPERM \<or> errno = EMFILE)"

section \<open>Acceptor (Acceptor.cc)\<close>

text \<open>
  The part of the kernel that the acceptor talks to: the descriptors open in the
  process, the limit on their number (a new descriptor is the lowest free number below
  \<open>fd_limit\<close>; when there is none the call fails with \<^verbatim>\<open>EMFILE\<close>), and the connections
  completed and waiting in the listen queue.
\<close>

record kernel =
  open_fds :: "nat list"
  fd_limit :: nat
  backlog :: "sockaddr_in6 list"

definition k_alloc :: "kernel \<Rightarrow> nat option" where
  "k_alloc k = find (\<lambda>n. n \<notin> set (open_fds k)) [0..<fd_limit k]"

definition k_accept :: "kernel \<Rightarrow> accept_result \<times> kernel" where
  "k_accept k =
     (case k_alloc k of
        None \<Rightarrow> (AcceptErr EMFILE, k)
      | Some fd \<Rightarrow>
          (case backlog k of
             [] \<Rightarrow> (AcceptErr EAGAIN, k)
           | peer # rest \<Rightarrow>
               (AcceptOk fd peer, k\<lparr> open_fds := fd # open_fds k, backlog := rest \<rparr>)))"

definition k_close :: "int \<Rightarrow> kernel \<Rightarrow> int \<times> kernel" where
  "k_close fd k =
     (if 0 \<le> fd \<and> nat fd \<in> set (open_fds k)
      then (0, k\<lparr> open_fds := removeAll (nat fd) (open_fds k) \<rparr>)
      else (- 1, k))"

definition k_open :: "kernel \<Rightarrow> int \<times> kernel" where
  "k_open k =
     (case k_alloc k of
        None \<Rightarrow> (- 1, k)
      | Some fd \<Rightarrow> (int fd, k\<lparr> open_fds := fd # open_fds k \<rparr>))"

text \<open>
  The members of the acceptor that \<^verbatim>\<open>handleRead\<close> uses (\<^verbatim>\<open>acceptSocket_.fd()\<close>,
  \<^verbatim>\<open>idleFd_\<close>, whether \<^verbatim>\<open>newConnectionCallback_\<close> is set), and what it does, in order.
  After a failed accept \<^verbatim>\<open>handleRead\<close> writes its log line (\<^verbatim>\<open>LOG_SYSERR\<close>) and then
  compares \<^verbatim>\<open>errno\<close> with \<^verbatim>\<open>EMFILE\<close>.
\<close>

record Acceptor =
  acceptSocket :: int
  idleFd :: int
  newConnectionCallback :: bool

datatype acceptor_step =
    SysAccept4 int int
  | SysClose int
  | SysAccept int int
  | SysOpen string int
  | NewConnectionCallback int InetAddress

definition accept_fd :: "accept_result \<Rightarrow> int" where
  "accept_fd r = (case r of AcceptOk fd peer \<Rightarrow> int fd | AcceptErr errno \<Rightarrow> - 1)"

definition Acceptor_handleRead ::
  "log_effect \<Rightarrow> int \<Rightarrow> Acceptor \<Rightarrow> kernel
     \<Rightarrow> error + (Acceptor \<times> kernel \<times> acceptor_step list)" where
  "Acceptor_handleRead l errno a k =
     (let peerAddr = memZero_sockaddr_in6;
          (r, k1) = k_accept k
      in case Socket_accept r peerAddr errno of
           Inl err \<Rightarrow> Inl err
         | Inr (connfd, peerAddr', errno') \<Rightarrow>
             if 0 \<le> connfd
             then (if newConnectionCallback a
                   then Inr (a, k1, [SysAccept4 (acceptSocket a) connfd,
                                     NewConnectionCallback connfd peerAddr'])
                   else (let (rc, k2) = k_close connfd k1
                         in Inr (a, k2, [SysAccept4 (acceptSocket a) connfd,
                                         SysClose connfd])))
             else if LOG_SYSERR l errno' = EMFILE
             then (let (rc1, k2) = k_close (idleFd a) k1;
                       (r2, k3) = k_accept k2;
                       idle2 = accept_fd r2;
                       (rc2, k4) = k_close idle2 k3;
                       (idle3, k5) = k_open k4
                   in Inr (a\<lparr> idleFd := idle3 \<rparr>, k5,
                           [SysAccept4 (acceptSocket a) connfd,
                            SysClose (idleFd a),
                            SysAccept (acceptSocket a) idle2,
                            SysClose idle2,
                            SysOpen ''/dev/null'' idle3]))
             else Inr (a, k1, [SysAccept4 (acceptSocket a) connfd]))"

section \<open>TCP connection (TcpConnection.cc)\<close>

datatype StateE = kDisconnected | kConnecting | kConnected | kDisconnecting

text \<open>
  Modelled from the spec: \<^verbatim>\<open>muduo/net/Channel.h\<close> is not among the sources. A channel is
  a descriptor with an interest mask; \<^verbatim>\<open>enableReading\<close>, \<^verbatim>\<open>enableWriting\<close>,
  \<^verbatim>\<open>disableReading\<close>, \<^verbatim>\<open>disableWriting\<close> and \<^verbatim>\<open>disableAll\<close> change the mask, and
  \<^verbatim>\<open>isReading\<close>, \<^verbatim>\<open>isWriting\<close> read it.
\<close>

record Channel =
  isReading :: bool
  isWriting :: bool

definition enableReading :: "Channel \<Rightarrow> Channel" where
  "enableReading ch = ch\<lparr> isReading := True \<rparr>"

definition disableReading :: "Channel \<Rightarrow> Channel" where
  "disableReading ch = ch\<lparr> isReading := False \<rparr>"

definition enableWriting :: "Channel \<Rightarrow> Channel" where
  "enableWriting ch = ch\<lparr> isWriting := True \<rparr>"

definition disableWriting :: "Channel \<Rightarrow> Channel" where
  "disableWriting ch = ch\<lparr> isWriting := False \<rparr>"

definition disableAll :: "Channel \<Rightarrow> Channel" where
  "disableAll ch = ch\<lparr> isReading := False, isWriting := False \<rparr>"

text \<open>
  A functor handed to the loop, and what a connection does that can be seen from
  outside, in order: bytes accepted by \<^verbatim>\<open>write(2)\<close>, the half-close, and the calls of the
  user's callbacks.
\<close>

datatype task =
    WriteCompleteCallback
  | HighWaterMarkCallback nat
  | SendInLoop "byte list"
  | ShutdownInLoop
  | ForceCloseInLoop

datatype effect =
    SockWrite "byte list"
  | SockShutdownWrite
  | ConnectionCallback bool
  | CloseCallback
  | MessageCallback
  | ChannelRemove

text \<open>
  What \<^verbatim>\<open>write(2)\<close> finds: room for some bytes in the socket's send buffer (it takes as
  many of the bytes offered as fit), or an error with its \<^verbatim>\<open>errno\<close>. After an error the
  caller writes a log line; what that does to \<^verbatim>\<open>errno\<close> comes with the error.
\<close>

datatype write_result = WriteRoom nat | WriteErr int log_effect

definition sockets_write :: "write_result \<Rightarrow> byte list \<Rightarrow> int" where
  "sockets_write wr d =
     (case wr of WriteRoom k \<Rightarrow> int (min k (length d)) | WriteErr errno l \<Rightarrow> - 1)"

text \<open>
  The members of a connection (\<^verbatim>\<open>state_\<close>, \<^verbatim>\<open>reading_\<close>, \<^verbatim>\<open>channel_\<close>, the two buffers,
  \<^verbatim>\<open>highWaterMark_\<close>, whether \<^verbatim>\<open>writeCompleteCallback_\<close> and
  \<^verbatim>\<open>highWaterMarkCallback_\<close> are set), the functors pending in its loop and the trace of
  its effects.
\<close>

record TcpConnection =
  state :: StateE
  reading :: bool
  channel :: Channel
  inputBuffer :: Buffer
  outputBuffer :: Buffer
  highWaterMark :: nat
  writeCompleteCallback :: bool
  highWaterMarkCallback :: bool
  pendingFunctors :: "task list"
  effects :: "effect list"

definition queueInLoop :: "task \<Rightarrow> TcpConnection \<Rightarrow> TcpConnection" where
  "queueInLoop t c = c\<lparr> pendingFunctors := pendingFunctors c @ [t] \<rparr>"

definition emit :: "effect \<Rightarrow> TcpConnection \<Rightarrow> TcpConnection" where
  "emit x c = c\<lparr> effects := effects c @ [x] \<rparr>"

definition TcpConnection_ctor :: "error + TcpConnection" where
  "TcpConnection_ctor =
     (case Buffer_ctor kInitialSize of
        Inl err \<Rightarrow> Inl err
      | Inr b \<Rightarrow>
          Inr \<lparr> state = kConnecting, reading = True,
                channel = \<lparr> isReading = False, isWriting = False \<rparr>,
                inputBuffer = b, outputBuffer = b,
                highWaterMark = 64 * 1024 * 1024,
                writeCompleteCallback = False, highWaterMarkCallback = False,
                pendingFunctors = [], effects = [] \<rparr>)"

text \<open>
  The first half of \<^verbatim>\<open>sendInLoop\<close>: the direct write. It returns \<^verbatim>\<open>nwrote\<close>,
  \<^verbatim>\<open>remaining\<close>, \<^verbatim>\<open>faultError\<close> and the connection. After a failed write \<^verbatim>\<open>errno\<close> is
  compared with \<^verbatim>\<open>EWOULDBLOCK\<close> before the log line and with \<^verbatim>\<open>EPIPE\<close> and \<^verbatim>\<open>ECONNRESET\<close>
  after it.
\<close>

definition sendInLoop_direct ::
  "byte list \<Rightarrow> write_result \<Rightarrow> TcpConnection \<Rightarrow> nat \<times> nat \<times> bool \<times> TcpConnection" where
  "sendInLoop_direct d wr c =
     (let len = length d
      in if \<not> isWriting (channel c) \<and> readableBytes (outputBuffer c) = 0
         then (let nwrote = sockets_write wr d
               in if 0 \<le> nwrote
                  then (let c1 = emit (SockWrite (take (nat nwrote) d)) c;
                            remaining = size_sub len (nat nwrote)
                        in if remaining = 0 \<and> writeCompleteCallback c1
                           then (nat nwrote, remaining, False,
                                 queueInLoop WriteCompleteCallback c1)
                           else (nat nwrote, remaining, False, c1))
                  else (case wr of
                          WriteRoom k \<Rightarrow> (0, len, False, c)
                        | WriteErr errno l \<Rightarrow>
                            (0, len,
                             errno \<noteq> EWOULDBLOCK
                             \<and> (LOG_SYSERR l errno = EPIPE \<or> LOG_SYSERR l errno = ECONNRESET),
                             c)))
         else (0, len, False, c))"

definition sendInLoop ::
  "byte list \<Rightarrow> write_result \<Rightarrow> TcpConnection \<Rightarrow> error + TcpConnection" where
  "sendInLoop d wr c =
     (if state c = kDisconnected then Inr c
      else (let (nwrote, remaining, faultError, c1) = sendInLoop_direct d wr c
            in if \<not> remaining \<le> length d then Inl AssertFail
               else if \<not> faultError \<and> 0 < remaining
               then (let oldLen = readableBytes (outputBuffer c1);
                         c2 = (if highWaterMark c1 \<le> oldLen + remaining
                                  \<and> oldLen < highWaterMark c1
                                  \<and> highWaterMarkCallback c1
                               then queueInLoop (HighWaterMarkCallback (oldLen + remaining)) c1
                               else c1)
                     in case append (drop nwrote d) (outputBuffer c2) of
                          Inl err \<Rightarrow> Inl err
                        | Inr ob \<Rightarrow>
                            (let c3 = c2\<lparr> outputBuffer := ob \<rparr>
                             in if \<not> isWriting (channel c3)
                                then Inr (c3\<lparr> channel := enableWriting (channel c3) \<rparr>)
                                else Inr c3))
               else Inr c1))"

text \<open>
  \<^verbatim>\<open>runInLoop\<close> runs the functor at once when the caller is the loop's thread and queues
  it otherwise: \<open>inLoopThread\<close> is \<^verbatim>\<open>loop_->isInLoopThread()\<close>.
\<close>

definition send ::
  "byte list \<Rightarrow> bool \<Rightarrow> write_result \<Rightarrow> TcpConnection \<Rightarrow> error + TcpConnection" where
  "send message inLoopThread wr c =
     (if state c = kConnected
      then (if inLoopThread then sendInLoop message wr c
            else Inr (queueInLoop (SendInLoop message) c))
      else Inr c)"

text \<open>
  \<^verbatim>\<open>send(Buffer* buf)\<close> returns the connection and the caller's buffer.
\<close>

definition send_Buffer ::
  "Buffer \<Rightarrow> bool \<Rightarrow> write_result \<Rightarrow> TcpConnection \<Rightarrow> error + (TcpConnection \<times> Buffer)"
  where
  "send_Buffer buf inLoopThread wr c =
     (if state c = kConnected
      then (if inLoopThread
            then (case sendInLoop (readable buf) wr c of
                    Inl err \<Rightarrow> Inl err
                  | Inr c' \<Rightarrow> Inr (c', retrieveAll buf))
            else (case retrieveAllAsString buf of
                    Inl err \<Rightarrow> Inl err
                  | Inr (message, buf') \<Rightarrow> Inr (queueInLoop (SendInLoop message) c, buf')))
      else Inr (c, buf))"

definition shutdownInLoop :: "TcpConnection \<Rightarrow> TcpConnection" where
  "shutdownInLoop c = (if \<not> isWriting (channel c) then emit SockShutdownWrite c else c)"

definition shutdown :: "bool \<Rightarrow> TcpConnection \<Rightarrow> TcpConnection" where
  "shutdown inLoopThread c =
     (if state c = kConnected
      then (let c1 = c\<lparr> state := kDisconnecting \<rparr>
            in if inLoopThread then shutdownInLoop c1 else queueInLoop ShutdownInLoop c1)
      else c)"

definition handleClose :: "TcpConnection \<Rightarrow> error + TcpConnection" where
  "handleClose c =
     (if state c = kConnected \<or> state c = kDisconnecting
      then (let c1 = c\<lparr> state := kDisconnected \<rparr>;
                c2 = c1\<lparr> channel := disableAll (channel c1) \<rparr>;
                c3 = emit (ConnectionCallback False) c2
            in Inr (emit CloseCallback c3))
      else Inl AssertFail)"

definition forceClose :: "TcpConnection \<Rightarrow> TcpConnection" where
  "forceClose c =
     (if state c = kConnected \<or> state c = kDisconnecting
      then queueInLoop ForceCloseInLoop (c\<lparr> state := kDisconnecting \<rparr>)
      else c)"

definition forceCloseInLoop :: "TcpConnection \<Rightarrow> error + TcpConnection" where
  "forceCloseInLoop c =
     (if state c = kConnected \<or> state c = kDisconnecting then handleClose c else Inr c)"

definition connectEstablished :: "TcpConnection \<Rightarrow> error + TcpConnection" where
  "connectEstablished c =
     (if state c = kConnecting
      then (let c1 = c\<lparr> state := kConnected \<rparr>;
                c2 = c1\<lparr> channel := enableReading (channel c1) \<rparr>
            in Inr (emit (ConnectionCallback True) c2))
      else Inl AssertFail)"

definition connectDestroyed :: "TcpConnection \<Rightarrow> TcpConnection" where
  "connectDestroyed c =
     (let c1 = (if state c = kConnected
                then (let c' = c\<lparr> state := kDisconnected \<rparr>;
                          c'' = c'\<lparr> channel := disableAll (channel c') \<rparr>
                      in emit (ConnectionCallback False) c'')
                else c)
      in emit ChannelRemove c1)"

definition handleError :: "TcpConnection \<Rightarrow> TcpConnection" where
  "handleError c = c"

definition handleRead :: "fd_input \<Rightarrow> TcpConnection \<Rightarrow> error + TcpConnection" where
  "handleRead inp c =
     (case readFd inp 0 (inputBuffer c) of
        Inl err \<Rightarrow> Inl err
      | Inr (n, savedErrno, ib) \<Rightarrow>
          (let c1 = c\<lparr> inputBuffer := ib \<rparr>
           in if 0 < n then Inr (emit MessageCallback c1)
              else if n = 0 then handleClose c1
              else Inr (handleError c1)))"

definition handleWrite :: "write_result \<Rightarrow> TcpConnection \<Rightarrow> error + TcpConnection" where
  "handleWrite wr c =
     (if isWriting (channel c)
      then (let n = sockets_write wr (readable (outputBuffer c))
            in if 0 < n
               then (case retrieve (nat n) (outputBuffer c) of
                       Inl err \<Rightarrow> Inl err
                     | Inr ob \<Rightarrow>
                         (let c1 = (emit (SockWrite (take (nat n) (readable (outputBuffer c)))) c)
                                     \<lparr> outputBuffer := ob \<rparr>
                          in if readableBytes (outputBuffer c1) = 0
                             then (let c2 = c1\<lparr> channel := disableWriting (channel c1) \<rparr>;
                                       c3 = (if writeCompleteCallback c2
                                             then queueInLoop WriteCompleteCallback c2
                                             else c2)
                                   in if state c3 = kDisconnecting
                                      then Inr (shutdownInLoop c3)
                                      else Inr c3)
                             else Inr c1))
               else Inr c)
      else Inr c)"

text \<open>
  What can happen to a connection, one event at a time: a call of the public interface
  (from the loop's thread or from another one), a readiness event of the channel, or
  the loop running the oldest pending functor.
\<close>

datatype event =
    EvSend "byte list" bool write_result
  | EvShutdown bool
  | EvForceClose
  | EvHandleWrite write_result
  | EvHandleRead fd_input
  | EvConnectDestroyed
  | EvRunPending write_result

definition run_task :: "task \<Rightarrow> write_result \<Rightarrow> TcpConnection \<Rightarrow> error + TcpConnection" where
  "run_task t wr c =
     (case t of
        WriteCompleteCallback \<Rightarrow> Inr c
      | HighWaterMarkCallback n \<Rightarrow> Inr c
      | SendInLoop d \<Rightarrow> sendInLoop d wr c
      | ShutdownInLoop \<Rightarrow> Inr (shutdownInLoop c)
      | ForceCloseInLoop \<Rightarrow> forceCloseInLoop c)"

fun step :: "event \<Rightarrow> TcpConnection \<Rightarrow> error + TcpConnection" where
  "step (EvSend d inLoopThread wr) c = send d inLoopThread wr c"
| "step (EvShutdown inLoopThread) c = Inr (shutdown inLoopThread c)"
| "step EvForceClose c = Inr (forceClose c)"
| "step (EvHandleWrite wr) c = handleWrite wr c"
| "step (EvHandleRead inp) c = handleRead inp c"
| "step EvConnectDestroyed c = Inr (connectDestroyed c)"
| "step (EvRunPending wr) c =
     (case pendingFunctors c of
        [] \<Rightarrow> Inr c
      | t # ts \<Rightarrow> run_task t wr (c\<lparr> pendingFunctors := ts \<rparr>))"

text \<open>
  \<open>early_half_close c c'\<close>: the step from \<open>c\<close> to \<open>c'\<close> closed the write half of the socket
  although the output buffer holds bytes. \<open>early_half_closes evs c\<close>: some step of the
  run of \<open>evs\<close> from \<open>c\<close> did so; \<open>early_half_closes_live\<close> counts only steps taken by a
  connection that is not yet \<open>kDisconnected\<close>. A step that aborts ends the run.
\<close>

definition half_closes :: "TcpConnection \<Rightarrow> nat" where
  "half_closes c = length (filter (\<lambda>x. x = SockShutdownWrite) (effects c))"

definition early_half_close :: "TcpConnection \<Rightarrow> TcpConnection \<Rightarrow> bool" where
  "early_half_close c c' =
     (half_closes c' \<noteq> half_closes c \<and> readableBytes (outputBuffer c') \<noteq> 0)"

fun early_half_closes :: "event list \<Rightarrow> TcpConnection \<Rightarrow> bool" where
  "early_half_closes [] c = False"
| "early_half_closes (ev # evs) c =
     (case step ev c of
        Inl err \<Rightarrow> False
      | Inr c' \<Rightarrow> early_half_close c c' \<or> early_half_closes evs c')"

fun early_half_closes_live :: "event list \<Rightarrow> TcpConnection \<Rightarrow> bool" where
  "early_half_closes_live [] c = False"
| "early_half_closes_live (ev # evs) c =
     (case step ev c of
        Inl err \<Rightarrow> False
      | Inr c' \<Rightarrow>
          (state c \<noteq> kDisconnected \<and> early_half_close c c')
          \<or> early_half_closes_live evs c')"

text \<open>
  Calls of \<^verbatim>\<open>sendInLoop\<close> one after the other with nothing draining the output buffer
  in between, and the number of high-water callbacks waiting in the loop.
\<close>

fun sends :: "(byte list \<times> write_result) list \<Rightarrow> TcpConnection \<Rightarrow> error + TcpConnection" where
  "sends [] c = Inr c"
| "sends ((d, wr) # xs) c =
     (case sendInLoop d wr c of Inl err \<Rightarrow> Inl err | Inr c' \<Rightarrow> sends xs c')"

definition is_high_water :: "task \<Rightarrow> bool" where
  "is_high_water t = (case t of HighWaterMarkCallback n \<Rightarrow> True | _ \<Rightarrow> False)"

definition high_water_calls :: "TcpConnection \<Rightarrow> nat" where
  "high_water_calls c = length (filter is_high_water (pendingFunctors c))"


section \<open>Invariants\<close>

text \<open>
  The class invariant of the buffer, as drawn in the header:
  \<^verbatim>\<open>0 <= readerIndex <= writerIndex <= size\<close>; the backing vector never gets shorter
  than the headroom.
\<close>

definition buf_inv :: "Buffer \<Rightarrow> bool" where
  "buf_inv b =
     (readerIndex b \<le> writerIndex b \<and> writerIndex b \<le> length (buffer b)
      \<and> kCheapPrepend \<le> length (buffer b))"

text \<open>
  A connection that is not closed watches for writability as long as its output buffer
  holds bytes.
\<close>

definition conn_inv :: "TcpConnection \<Rightarrow> bool" where
  "conn_inv c =
     (state c = kDisconnected \<or> readableBytes (outputBuffer c) = 0 \<or> isWriting (channel c))"


text \<open>
  What one call of \<^verbatim>\<open>readFd\<close> can take: the writable tail and, when the tail is shorter
  than \<^verbatim>\<open>extrabuf\<close>, \<^verbatim>\<open>extrabuf\<close> as well.
\<close>

definition readFd_capacity :: "Buffer \<Rightarrow> nat" where
  "readFd_capacity b =
     (if writableBytes b < extrabuf_size then writableBytes b + extrabuf_size
      else writableBytes b)"


section \<open>The buffer: copying, growth and the class invariant\<close>

lemma size_sub_le [simp]: "b \<le> a \<Longrightarrow> size_sub a b = a - b"
  by (simp add: size_sub_def)

lemma buf_inv_readableBytes:
  "buf_inv b \<Longrightarrow> readableBytes b = writerIndex b - readerIndex b"
  by (simp add: buf_inv_def readableBytes_def)

lemma buf_inv_writableBytes:
  "buf_inv b \<Longrightarrow> writableBytes b = length (buffer b) - writerIndex b"
  by (simp add: buf_inv_def writableBytes_def)

lemma length_std_copy [simp]: "length (std_copy xs buf d) = length buf"
  by (induction xs buf d rule: std_copy.induct) auto

lemma std_copy_eq:
  "d + length xs \<le> length buf \<Longrightarrow>
   std_copy xs buf d = take d buf @ xs @ drop (d + length xs) buf"
proof (induction xs buf d rule: std_copy.induct)
  case (1 buf d)
  then show ?case by simp
next
  case (2 x xs buf d)
  then have "std_copy xs (buf[d := x]) (Suc d) =
             take (Suc d) (buf[d := x]) @ xs @ drop (Suc d + length xs) (buf[d := x])"
    by simp
  also have "take (Suc d) (buf[d := x]) = take d buf @ [x]"
    using "2.prems" by (simp add: take_Suc_conv_app_nth)
  also have "drop (Suc d + length xs) (buf[d := x]) = drop (Suc d + length xs) buf"
    by simp
  finally show ?case by simp
qed

lemma length_copy_within [simp]: "length (copy_within buf s d n) = length buf"
  by (induction buf s d n rule: copy_within.induct) auto

lemma copy_within_outside:
  "j < d \<or> d + n \<le> j \<Longrightarrow> copy_within buf s d n ! j = buf ! j"
  by (induction buf s d n rule: copy_within.induct) auto

lemma copy_within_nth:
  "d \<le> s \<Longrightarrow> s + n \<le> length buf \<Longrightarrow> i < n \<Longrightarrow>
   copy_within buf s d n ! (d + i) = buf ! (s + i)"
proof (induction buf s d n arbitrary: i rule: copy_within.induct)
  case (1 buf s d)
  then show ?case by simp
next
  case (2 buf s d n)
  show ?case
  proof (cases i)
    case 0
    have "copy_within (buf[d := buf ! s]) (Suc s) (Suc d) n ! d = (buf[d := buf ! s]) ! d"
      by (rule copy_within_outside) simp
    with 0 "2.prems" show ?thesis by simp
  next
    case (Suc i')
    have "copy_within (buf[d := buf ! s]) (Suc s) (Suc d) n ! (Suc d + i')
          = (buf[d := buf ! s]) ! (Suc s + i')"
      using "2.prems" Suc by (intro "2.IH") auto
    with Suc "2.prems" show ?thesis by simp
  qed
qed

lemma copy_within_moves:
  assumes "d \<le> s" "s + n \<le> length buf"
  shows "take n (drop d (copy_within buf s d n)) = take n (drop s buf)"
proof (rule nth_equalityI)
  show "length (take n (drop d (copy_within buf s d n))) = length (take n (drop s buf))"
    using assms by simp
next
  fix i assume "i < length (take n (drop d (copy_within buf s d n)))"
  then have i: "i < n" by simp
  then show "take n (drop d (copy_within buf s d n)) ! i = take n (drop s buf) ! i"
    using assms copy_within_nth[OF assms i] by simp
qed

lemma buf_inv_ctor:
  "kCheapPrepend + n < 2 ^ 64 \<Longrightarrow>
   \<exists>b. Buffer_ctor n = Inr b \<and> buf_inv b \<and> readerIndex b = kCheapPrepend
    \<and> writerIndex b = kCheapPrepend \<and> length (buffer b) = kCheapPrepend + n"
  by (simp add: Buffer_ctor_def Let_def readableBytes_def writableBytes_def
      prependableBytes_def buf_inv_def)

lemma buf_inv_retrieveAll: "buf_inv b \<Longrightarrow> buf_inv (retrieveAll b)"
  by (simp add: buf_inv_def retrieveAll_def)

lemma buf_inv_retrieve: "buf_inv b \<Longrightarrow> retrieve n b = Inr b' \<Longrightarrow> buf_inv b'"
  by (auto simp add: retrieve_def buf_inv_readableBytes buf_inv_retrieveAll
      split: if_splits) (auto simp add: buf_inv_def)

lemma buf_inv_hasWritten: "buf_inv b \<Longrightarrow> hasWritten n b = Inr b' \<Longrightarrow> buf_inv b'"
  by (auto simp add: hasWritten_def buf_inv_writableBytes split: if_splits)
     (auto simp add: buf_inv_def)

lemma buf_inv_unwrite: "buf_inv b \<Longrightarrow> unwrite n b = Inr b' \<Longrightarrow> buf_inv b'"
  by (auto simp add: unwrite_def buf_inv_readableBytes split: if_splits)
     (auto simp add: buf_inv_def)

lemma buf_inv_prepend: "buf_inv b \<Longrightarrow> prepend d b = Inr b' \<Longrightarrow> buf_inv b'"
  by (auto simp add: prepend_def prependableBytes_def Let_def buf_inv_def split: if_splits)

lemma readable_eq:
  "buf_inv b \<Longrightarrow> readable b = take (writerIndex b - readerIndex b) (drop (readerIndex b) (buffer b))"
  by (simp add: readable_def peek_bytes_def buf_inv_readableBytes)

lemma length_readable: "buf_inv b \<Longrightarrow> length (readable b) = readableBytes b"
  by (auto simp add: readable_eq buf_inv_readableBytes buf_inv_def)

lemma makeSpace_grow:
  assumes "buf_inv b" "writableBytes b < len"
    "writableBytes b + prependableBytes b < len + kCheapPrepend"
  shows "makeSpace len b =
           Inr (b\<lparr> buffer := buffer b @ replicate (writerIndex b + len - length (buffer b)) 0 \<rparr>)"
  using assms by (simp add: makeSpace_def resize_def buf_inv_writableBytes buf_inv_def)

lemma makeSpace_compact:
  assumes "buf_inv b" "writableBytes b < len"
    "\<not> writableBytes b + prependableBytes b < len + kCheapPrepend"
  shows "\<exists>b'. makeSpace len b = Inr b' \<and> readerIndex b' = kCheapPrepend
           \<and> writerIndex b' = kCheapPrepend + readableBytes b
           \<and> length (buffer b') = length (buffer b)
           \<and> readable b' = readable b \<and> buf_inv b'"
proof -
  define r w where "r = readerIndex b" and "w = writerIndex b"
  from assms have r: "kCheapPrepend < r" and rw: "r \<le> w" and wl: "w \<le> length (buffer b)"
    by (simp_all add: buf_inv_writableBytes prependableBytes_def buf_inv_def r_def w_def)
  have rb: "readableBytes b = w - r"
    using assms(1) by (simp add: buf_inv_readableBytes r_def w_def)
  define b' where "b' = b\<lparr> buffer := copy_within (buffer b) r kCheapPrepend (w - r),
                              readerIndex := kCheapPrepend,
                              writerIndex := kCheapPrepend + readableBytes b \<rparr>"
  have f: "readerIndex b' = kCheapPrepend" "writerIndex b' = kCheapPrepend + (w - r)"
    "buffer b' = copy_within (buffer b) r kCheapPrepend (w - r)"
    by (simp_all add: b'_def rb)
  have inv': "buf_inv b'"
    using r rw wl by (auto simp add: buf_inv_def f)
  have rb': "readableBytes b' = w - r"
    by (simp add: buf_inv_readableBytes[OF inv'] f)
  have ms: "makeSpace len b = Inr b'"
    using assms r rb rb' by (simp add: makeSpace_def Let_def b'_def r_def w_def)
  have "readable b' = take (w - r) (drop kCheapPrepend (copy_within (buffer b) r kCheapPrepend (w - r)))"
    by (simp add: readable_eq[OF inv'] f)
  also have "\<dots> = take (w - r) (drop r (buffer b))"
    using r rw wl by (intro copy_within_moves) auto
  also have "\<dots> = readable b"
    using assms(1) by (simp add: readable_eq r_def w_def)
  finally have "readable b' = readable b" .
  with ms inv' f rb show ?thesis by simp
qed

lemma ensureWritableBytes_ok:
  assumes "buf_inv b"
  shows "\<exists>b'. ensureWritableBytes len b = Inr b' \<and> buf_inv b' \<and> len \<le> writableBytes b'
           \<and> readable b' = readable b \<and> readableBytes b' = readableBytes b"
proof (cases "writableBytes b < len")
  case False
  with assms show ?thesis by (simp add: ensureWritableBytes_def)
next
  case True
  show ?thesis
  proof (cases "writableBytes b + prependableBytes b < len + kCheapPrepend")
    case grow: True
    let ?b' = "b\<lparr> buffer := buffer b @ replicate (writerIndex b + len - length (buffer b)) 0 \<rparr>"
    have ms: "makeSpace len b = Inr ?b'" using assms True grow by (rule makeSpace_grow)
    have inv': "buf_inv ?b'" using assms by (simp add: buf_inv_def)
    have wr: "len \<le> writableBytes ?b'"
      using assms True by (simp add: buf_inv_writableBytes[OF inv'] buf_inv_writableBytes buf_inv_def)
    have rd: "readable ?b' = readable b"
      using assms by (simp add: readable_eq[OF inv'] readable_eq buf_inv_def)
    have rb: "readableBytes ?b' = readableBytes b" by (simp add: readableBytes_def)
    show ?thesis using ms inv' wr rd rb True by (simp add: ensureWritableBytes_def)
  next
    case compact: False
    from makeSpace_compact[OF assms True compact] obtain b' where
      b': "makeSpace len b = Inr b'" "readerIndex b' = kCheapPrepend"
          "writerIndex b' = kCheapPrepend + readableBytes b"
          "length (buffer b') = length (buffer b)" "readable b' = readable b" "buf_inv b'"
      by blast
    have wr: "len \<le> writableBytes b'"
      using assms compact b'
      by (simp add: buf_inv_writableBytes buf_inv_readableBytes prependableBytes_def buf_inv_def)
    have rb: "readableBytes b' = readableBytes b"
      using b' assms by (simp add: buf_inv_readableBytes)
    show ?thesis using b' wr rb True by (simp add: ensureWritableBytes_def)
  qed
qed

lemma append_ok:
  assumes "buf_inv b"
  shows "\<exists>b'. append d b = Inr b' \<and> buf_inv b' \<and> readable b' = readable b @ d
           \<and> readableBytes b' = readableBytes b + length d"
proof -
  from ensureWritableBytes_ok[OF assms, of "length d"] obtain b1 where
    b1: "ensureWritableBytes (length d) b = Inr b1" "buf_inv b1" "length d \<le> writableBytes b1"
        "readable b1 = readable b" "readableBytes b1 = readableBytes b"
    by blast
  define r w buf where "r = readerIndex b1" and "w = writerIndex b1" and "buf = buffer b1"
  have rw: "r \<le> w" "w \<le> length buf" "kCheapPrepend \<le> length buf"
    using b1(2) by (simp_all add: buf_inv_def r_def w_def buf_def)
  have fit: "w + length d \<le> length buf"
    using b1(2,3) rw by (simp add: buf_inv_writableBytes w_def buf_def)
  define b2 where "b2 = b1\<lparr> buffer := std_copy d buf w \<rparr>"
  define b3 where "b3 = b2\<lparr> writerIndex := w + length d \<rparr>"
  have f2: "readerIndex b2 = r" "writerIndex b2 = w" "buffer b2 = std_copy d buf w"
    by (simp_all add: b2_def r_def w_def)
  have f3: "readerIndex b3 = r" "writerIndex b3 = w + length d" "buffer b3 = std_copy d buf w"
    by (simp_all add: b3_def f2)
  have inv2: "buf_inv b2" using rw by (simp add: buf_inv_def f2)
  have inv3: "buf_inv b3" using rw fit by (simp add: buf_inv_def f3)
  have hw: "hasWritten (length d) b2 = Inr b3"
    using fit by (simp add: hasWritten_def buf_inv_writableBytes[OF inv2] f2 b3_def)
  have ap: "append d b = Inr b3"
    using b1(1) hw by (simp add: append_def b2_def w_def buf_def)
  have "readable b3 = take (w + length d - r) (drop r (std_copy d buf w))"
    by (simp add: readable_eq[OF inv3] f3)
  also have "\<dots> = take (w + length d - r) (drop r (take w buf @ d @ drop (w + length d) buf))"
    using fit by (simp add: std_copy_eq)
  also have "\<dots> = take (w - r) (drop r buf) @ d"
    using rw by (simp add: drop_take min_absorb2)
  also have "\<dots> = readable b1 @ d"
    by (simp add: readable_eq[OF b1(2)] r_def w_def buf_def)
  finally have rd: "readable b3 = readable b @ d" using b1(4) by simp
  have "readableBytes b3 = readableBytes b1 + length d"
    using rw by (simp add: buf_inv_readableBytes[OF inv3] buf_inv_readableBytes[OF b1(2)] f3
        r_def[symmetric] w_def[symmetric])
  with ap inv3 rd b1(5) show ?thesis by simp
qed

lemma retrieve_ok:
  assumes "buf_inv b" "n \<le> readableBytes b"
  shows "\<exists>b'. retrieve n b = Inr b' \<and> buf_inv b' \<and> readable b' = drop n (readable b)
           \<and> readableBytes b' = readableBytes b - n"
proof (cases "n < readableBytes b")
  case True
  let ?b' = "b\<lparr> readerIndex := readerIndex b + n \<rparr>"
  have inv': "buf_inv ?b'"
    using assms True by (simp add: buf_inv_def buf_inv_readableBytes)
  have "readable ?b' = take (writerIndex b - (readerIndex b + n))
                         (drop (readerIndex b + n) (buffer b))"
    using readable_eq[OF inv'] by simp
  also have "\<dots> = drop n (take (writerIndex b - readerIndex b) (drop (readerIndex b) (buffer b)))"
    by (simp add: drop_take add.commute)
  finally have "readable ?b' = drop n (readable b)"
    using assms(1) by (simp add: readable_eq)
  moreover have "readableBytes ?b' = readableBytes b - n"
    using assms by (simp add: buf_inv_readableBytes[OF inv'] buf_inv_readableBytes)
  ultimately show ?thesis using True inv' by (simp add: retrieve_def)
next
  case False
  with assms have n: "n = readableBytes b" by simp
  have inv': "buf_inv (retrieveAll b)" using assms(1) by (rule buf_inv_retrieveAll)
  have "readable (retrieveAll b) = []"
    by (simp add: readable_eq[OF inv']) (simp add: retrieveAll_def)
  moreover have "readableBytes (retrieveAll b) = 0"
    by (simp add: buf_inv_readableBytes[OF inv']) (simp add: retrieveAll_def)
  ultimately show ?thesis
    using n inv' assms(1) by (simp add: retrieve_def length_readable[symmetric])
qed

lemma buf_inv_ensureWritableBytes:
  "buf_inv b \<Longrightarrow> ensureWritableBytes n b = Inr b' \<Longrightarrow> buf_inv b'"
  using ensureWritableBytes_ok[of b n] by auto

lemma buf_inv_append: "buf_inv b \<Longrightarrow> append d b = Inr b' \<Longrightarrow> buf_inv b'"
  using append_ok[of b d] by auto

lemma readFd_error: "readFd (FdError errno) savedErrno b = Inr (- 1, errno, b)"
  by (simp add: readFd_def sockets_readv_def Let_def)

lemma write_tail:
  assumes "buf_inv b" "length t \<le> writableBytes b"
  defines "b' \<equiv> b\<lparr> buffer := std_copy t (buffer b) (writerIndex b),
                     writerIndex := writerIndex b + length t \<rparr>"
  shows "buf_inv b' \<and> readable b' = readable b @ t
         \<and> readableBytes b' = readableBytes b + length t"
proof -
  define r w buf where "r = readerIndex b" and "w = writerIndex b" and "buf = buffer b"
  have rw: "r \<le> w" "w \<le> length buf" "kCheapPrepend \<le> length buf"
    using assms(1) by (simp_all add: buf_inv_def r_def w_def buf_def)
  have fit: "w + length t \<le> length buf"
    using assms(1,2) rw by (simp add: buf_inv_writableBytes w_def buf_def)
  have f: "readerIndex b' = r" "writerIndex b' = w + length t" "buffer b' = std_copy t buf w"
    by (simp_all add: b'_def r_def w_def buf_def)
  have inv': "buf_inv b'" using rw fit by (simp add: buf_inv_def f)
  have "readable b' = take (w + length t - r) (drop r (std_copy t buf w))"
    by (simp add: readable_eq[OF inv'] f)
  also have "\<dots> = take (w + length t - r) (drop r (take w buf @ t @ drop (w + length t) buf))"
    using fit by (simp add: std_copy_eq)
  also have "\<dots> = take (w - r) (drop r buf) @ t"
    using rw by (simp add: drop_take min_absorb2)
  also have "\<dots> = readable b @ t"
    by (simp add: readable_eq[OF assms(1)] r_def w_def buf_def)
  finally have rd: "readable b' = readable b @ t" .
  have "readableBytes b' = readableBytes b + length t"
    using rw by (simp add: buf_inv_readableBytes[OF inv'] buf_inv_readableBytes[OF assms(1)] f
        r_def[symmetric] w_def[symmetric])
  with inv' rd show ?thesis by simp
qed

lemma readFd_fits:
  assumes "buf_inv b" "min (length d) (readFd_capacity b) \<le> writableBytes b"
  defines "n \<equiv> min (length d) (readFd_capacity b)"
  shows "readFd (FdData d) savedErrno b =
           Inr (int n, savedErrno,
                b\<lparr> buffer := std_copy (take n d) (buffer b) (writerIndex b),
                   writerIndex := writerIndex b + n \<rparr>)"
proof -
  have n_le: "n \<le> writableBytes b" using assms(2) by (simp add: n_def)
  have tk: "take (writableBytes b) d = take n d"
    using n_le by (auto simp add: n_def readFd_capacity_def min_def split: if_splits)
  show ?thesis
  proof (cases "writableBytes b < extrabuf_size")
    case True
    with n_le have "length d \<le> writableBytes b"
      by (auto simp add: n_def readFd_capacity_def min_def split: if_splits)
    then show ?thesis
      using True tk by (simp add: readFd_def sockets_readv_def readFd_iovcnt_def Let_def n_def
          readFd_capacity_def min_def)
  next
    case False
    then show ?thesis
      using tk by (simp add: readFd_def sockets_readv_def readFd_iovcnt_def Let_def n_def
          readFd_capacity_def)
  qed
qed

lemma readFd_overflow:
  assumes "buf_inv b" "writableBytes b < min (length d) (readFd_capacity b)"
  defines "n \<equiv> min (length d) (readFd_capacity b)"
  shows "\<exists>b'. readFd (FdData d) savedErrno b = Inr (int n, savedErrno, b') \<and> buf_inv b'
           \<and> readable b' = readable b @ take n d
           \<and> readableBytes b' = readableBytes b + n"
proof -
  define wr where "wr = writableBytes b"
  have small: "wr < extrabuf_size" and long: "wr < length d"
    using assms(2) by (auto simp add: readFd_capacity_def wr_def split: if_splits)
  have cap: "readFd_capacity b = wr + extrabuf_size"
    using small by (simp add: readFd_capacity_def wr_def)
  define tail extra where "tail = take wr d" and "extra = take extrabuf_size (drop wr d)"
  have lt: "length tail = wr" using long by (simp add: tail_def)
  have n_eq: "n = wr + length extra"
    using long by (auto simp add: n_def cap extra_def min_def)
  have td: "tail @ extra = take n d"
  proof -
    have "tail @ extra = take (wr + extrabuf_size) d"
      by (simp add: take_add tail_def extra_def)
    also have "\<dots> = take n d"
      by (simp add: n_def cap min_def)
    finally show ?thesis .
  qed
  define b1 where "b1 = b\<lparr> buffer := std_copy tail (buffer b) (writerIndex b),
                             writerIndex := writerIndex b + length tail \<rparr>"
  have b1: "buf_inv b1" "readable b1 = readable b @ tail"
    "readableBytes b1 = readableBytes b + length tail"
    using write_tail[OF assms(1), of tail] lt by (simp_all add: b1_def wr_def)
  have w1: "writerIndex b + length tail = length (buffer b)"
    using assms(1) lt by (simp add: wr_def buf_inv_writableBytes buf_inv_def)
  from append_ok[OF b1(1), of extra] obtain b2 where
    b2: "append extra b1 = Inr b2" "buf_inv b2" "readable b2 = readable b1 @ extra"
        "readableBytes b2 = readableBytes b1 + length extra"
    by blast
  have sum: "length tail + length extra = n" using lt n_eq by simp
  have nw: "\<not> n \<le> wr" using assms(2) unfolding n_def wr_def by linarith
  have tke: "take (n - wr) extra = extra" using n_eq by simp
  have sc: "scatter [wr, extrabuf_size] d = [tail, extra]"
    by (simp add: tail_def extra_def)
  have "readFd (FdData d) savedErrno b = Inr (int n, savedErrno, b2)"
    using small b2(1) nw tke sum w1
    by (simp add: readFd_def sockets_readv_def readFd_iovcnt_def Let_def wr_def[symmetric]
        sc b1_def del: scatter.simps)
  moreover have "readable b2 = readable b @ take n d"
    using b2(3) b1(2) td by simp
  moreover have "readableBytes b2 = readableBytes b + n"
    using b2(4) b1(3) sum by simp
  ultimately show ?thesis using b2(2) by blast
qed

lemma readFd_ok:
  assumes "buf_inv b"
  shows "\<exists>n errno b'. readFd inp savedErrno b = Inr (n, errno, b') \<and> buf_inv b'"
proof (cases inp)
  case (FdError x)
  with assms show ?thesis by (simp add: readFd_error)
next
  case (FdData d)
  show ?thesis
  proof (cases "min (length d) (readFd_capacity b) \<le> writableBytes b")
    case True
    have "length (take (min (length d) (readFd_capacity b)) d) \<le> writableBytes b"
      using True by simp
    from write_tail[OF assms this] True show ?thesis
      unfolding FdData readFd_fits[OF assms True] by simp
  next
    case False
    then have "writableBytes b < min (length d) (readFd_capacity b)" by linarith
    from readFd_overflow[OF assms this] show ?thesis
      unfolding FdData by blast
  qed
qed

lemma buf_inv_readInt: "buf_inv b \<Longrightarrow> readInt e w b = Inr (v, b') \<Longrightarrow> buf_inv b'"
  by (cases w)
     (auto simp add: readInt8_def readInt16_def readInt32_def readInt64_def
        retrieveInt8_def retrieveInt16_def retrieveInt32_def retrieveInt64_def
        split: sum.splits dest: buf_inv_retrieve)

lemma buf_inv_appendInt: "buf_inv b \<Longrightarrow> appendInt e v b = Inr b' \<Longrightarrow> buf_inv b'"
  by (cases v)
     (auto simp add: appendInt8_def appendInt16_def appendInt32_def appendInt64_def Let_def
        dest: buf_inv_append)

lemma buf_inv_prependInt: "buf_inv b \<Longrightarrow> prependInt e v b = Inr b' \<Longrightarrow> buf_inv b'"
  by (cases v)
     (auto simp add: prependInt8_def prependInt16_def prependInt32_def prependInt64_def Let_def
        dest: buf_inv_prepend)

lemma buf_inv_readFd:
  "buf_inv b \<Longrightarrow> readFd inp savedErrno b = Inr (n, errno, b') \<Longrightarrow> buf_inv b'"
  using readFd_ok[of b inp savedErrno] by auto

lemma buf_inv_retrieveAsString:
  assumes "buf_inv b" "retrieveAsString n b = Inr (s, b')"
  shows "buf_inv b'"
proof -
  from assms(2) have "retrieve n b = Inr b'"
    by (cases "retrieve n b") (simp_all add: retrieveAsString_def Let_def split: if_splits)
  with assms(1) show ?thesis by (rule buf_inv_retrieve)
qed

lemma buf_inv_apply_op:
  assumes "buf_inv b" "apply_op e x b = Inr b'"
  shows "buf_inv b'"
proof (cases x)
  case (OpAppend d) with assms show ?thesis by (auto dest: buf_inv_append)
next
  case (OpPrepend d) with assms show ?thesis by (auto dest: buf_inv_prepend)
next
  case (OpRetrieve n) with assms show ?thesis by (auto dest: buf_inv_retrieve)
next
  case OpRetrieveAll with assms show ?thesis by (auto simp add: buf_inv_retrieveAll)
next
  case (OpHasWritten n) with assms show ?thesis by (auto dest: buf_inv_hasWritten)
next
  case (OpUnwrite n) with assms show ?thesis by (auto dest: buf_inv_unwrite)
next
  case (OpAppendInt v) with assms show ?thesis by (auto dest: buf_inv_appendInt)
next
  case (OpPrependInt v) with assms show ?thesis by (auto dest: buf_inv_prependInt)
next
  case (OpPeekInt w)
  with assms have "b' = b" by (cases "peekInt e w b") auto
  with assms show ?thesis by simp
next
  case (OpReadInt w)
  with assms obtain v where "readInt e w b = Inr (v, b')"
    by (cases "readInt e w b") auto
  with assms show ?thesis by (auto dest: buf_inv_readInt)
next
  case (OpReadFd inp)
  with assms obtain n errno where "readFd inp 0 b = Inr (n, errno, b')"
    by (cases "readFd inp 0 b") auto
  with assms show ?thesis by (auto dest: buf_inv_readFd)
next
  case (OpRetrieveAsString n)
  with assms obtain s where "retrieveAsString n b = Inr (s, b')"
    by (cases "retrieveAsString n b") auto
  with assms show ?thesis by (auto dest: buf_inv_retrieveAsString)
next
  case OpRetrieveAllAsString
  with assms obtain s where "retrieveAsString (readableBytes b) b = Inr (s, b')"
    by (cases "retrieveAsString (readableBytes b) b") (auto simp add: retrieveAllAsString_def)
  with assms show ?thesis by (auto dest: buf_inv_retrieveAsString)
qed

lemma buf_inv_apply_ops:
  "buf_inv b \<Longrightarrow> apply_ops e xs b = Inr b' \<Longrightarrow> buf_inv b'"
proof (induction xs arbitrary: b)
  case Nil then show ?case by simp
next
  case (Cons x xs)
  then show ?case
    by (auto split: sum.splits dest: buf_inv_apply_op)
qed


text \<open>
  As long as the sum \<^verbatim>\<open>kCheapPrepend + initialSize\<close> of the constructor does not wrap, the
  indices stay in range over any run of the buffer operations that runs to its end:
  \<open>readerIndex \<le> writerIndex \<le> size\<close>, \<^verbatim>\<open>readableBytes()\<close> is the difference of the two
  indices, and a \<^verbatim>\<open>retrieve\<close> of all readable bytes resets both indices to the headroom.
\<close>

lemma buffer_indices_in_range:
  assumes "kCheapPrepend + initialSize < 2 ^ 64" "run_buffer e initialSize ops = Inr b"
  shows "readerIndex b \<le> writerIndex b
         \<and> writerIndex b \<le> length (buffer b)
         \<and> int (readableBytes b) = int (writerIndex b) - int (readerIndex b)
         \<and> (\<exists>b'. retrieve (readableBytes b) b = Inr b'
               \<and> readerIndex b' = 8 \<and> writerIndex b' = 8 \<and> readableBytes b' = 0)"
proof -
  from buf_inv_ctor[OF assms(1)] obtain b0 where
    b0: "Buffer_ctor initialSize = Inr b0" "buf_inv b0" by blast
  with assms(2) have "apply_ops e ops b0 = Inr b" by (simp add: run_buffer_def)
  with b0 have inv: "buf_inv b" by (auto dest: buf_inv_apply_ops)
  then have idx: "readerIndex b \<le> writerIndex b" "writerIndex b \<le> length (buffer b)"
    by (simp_all add: buf_inv_def)
  have rb: "int (readableBytes b) = int (writerIndex b) - int (readerIndex b)"
    using idx by (simp add: buf_inv_readableBytes[OF inv])
  have "retrieve (readableBytes b) b = Inr (retrieveAll b)"
    by (simp add: retrieve_def)
  moreover have "readerIndex (retrieveAll b) = 8" "writerIndex (retrieveAll b) = 8"
    "readableBytes (retrieveAll b) = 0"
    by (simp_all add: retrieveAll_def kCheapPrepend_def readableBytes_def)
  ultimately show ?thesis using idx rb by simp
qed

text \<open>
  C1. The indices do not satisfy \<open>0 \<le> reader \<le> writer \<le> capacity\<close> after every
  construction. \<^verbatim>\<open>Buffer(18446744073709551615)\<close>, the largest \<^verbatim>\<open>size_t\<close>, runs to its end:
  the sum \<^verbatim>\<open>kCheapPrepend + initialSize\<close> wraps to 7, the vector gets 7 bytes, both indices
  are 8, and the three assertions of the constructor pass, because
  \<^verbatim>\<open>writableBytes()\<close> = \<^verbatim>\<open>buffer_.size() - writerIndex_\<close> wraps as well, to \<open>2 ^ 64 - 1\<close>, which is
  \<^verbatim>\<open>initialSize\<close>. The writer index is then beyond the end of the vector.
\<close>

theorem Buffer_ctor_size_max:
  "Buffer_ctor 18446744073709551615
     = Inr \<lparr>buffer = replicate 7 0, readerIndex = 8, writerIndex = 8\<rparr>
   \<and> length (buffer \<lparr>buffer = replicate 7 0, readerIndex = 8, writerIndex = 8\<rparr>)
       < writerIndex \<lparr>buffer = replicate 7 0, readerIndex = 8, writerIndex = 8\<rparr>
   \<and> writableBytes \<lparr>buffer = replicate 7 0, readerIndex = 8, writerIndex = 8\<rparr>
       = 18446744073709551615"
  by (simp add: Buffer_ctor_def Let_def readableBytes_def writableBytes_def
      prependableBytes_def kCheapPrepend_def size_sub_def)





section \<open>Reading from a descriptor\<close>

text \<open>
  A buffer with 65536 writable bytes, as \<^verbatim>\<open>Buffer(65536)\<close> builds it: \<^verbatim>\<open>readFd\<close> passes
  one vector to \<^verbatim>\<open>readv\<close>, not two.
\<close>

theorem readFd_two_vectors_counterexample:
  "Buffer_ctor 65536 = Inr \<lparr>buffer = replicate 65544 0, readerIndex = 8, writerIndex = 8\<rparr>
   \<and> writableBytes \<lparr>buffer = replicate 65544 0, readerIndex = 8, writerIndex = 8\<rparr> = 65536
   \<and> readFd_iovcnt \<lparr>buffer = replicate 65544 0, readerIndex = 8, writerIndex = 8\<rparr> = 1
   \<and> readFd_iovcnt \<lparr>buffer = replicate 65544 0, readerIndex = 8, writerIndex = 8\<rparr> \<noteq> 2"
  by (simp add: Buffer_ctor_def Let_def readableBytes_def writableBytes_def
      prependableBytes_def kCheapPrepend_def size_sub_def readFd_iovcnt_def extrabuf_size_def)


text \<open>
  C3, amended. \<^verbatim>\<open>readFd\<close> hands \<^verbatim>\<open>readv\<close> two vectors (the writable tail, then the 64 KiB
  \<^verbatim>\<open>extrabuf\<close>) when fewer than 65536 bytes are writable, and the writable tail alone
  otherwise. On an error it returns \<open>-1\<close>, stores \<^verbatim>\<open>errno\<close> in \<^verbatim>\<open>*savedErrno\<close> and leaves
  the buffer as it was. Otherwise it returns the number \<open>n\<close> of bytes taken, which is at
  most \<open>writable + 65536\<close> in the first case and at most \<open>writable\<close> in the second; the
  readable bytes grow by exactly these \<open>n\<close> bytes, appended in order; and when
  \<open>n \<le> writable\<close> only the writer index moves, by \<open>n\<close>.
\<close>

theorem readFd_scatter_read:
  assumes "buf_inv b"
  shows "readFd_iovcnt b = (if writableBytes b < 65536 then 2 else 1)
    \<and> readFd (FdError errno) savedErrno b = Inr (- 1, errno, b)
    \<and> (\<exists>n b'. readFd (FdData d) savedErrno b = Inr (int n, savedErrno, b')
          \<and> n = min (length d)
                  (if writableBytes b < 65536 then writableBytes b + 65536 else writableBytes b)
          \<and> n \<le> writableBytes b + 65536
          \<and> buf_inv b'
          \<and> readable b' = readable b @ take n d
          \<and> readableBytes b' = readableBytes b + n
          \<and> (n \<le> writableBytes b \<longrightarrow>
                readerIndex b' = readerIndex b \<and> writerIndex b' = writerIndex b + n
                \<and> length (buffer b') = length (buffer b)))"
proof -
  define n where "n = min (length d) (readFd_capacity b)"
  have cap: "readFd_capacity b =
      (if writableBytes b < 65536 then writableBytes b + 65536 else writableBytes b)"
    by (simp add: readFd_capacity_def extrabuf_size_def)
  have bound: "n \<le> writableBytes b + 65536"
    by (simp add: n_def cap min_def)
  have "\<exists>b'. readFd (FdData d) savedErrno b = Inr (int n, savedErrno, b') \<and> buf_inv b'
          \<and> readable b' = readable b @ take n d
          \<and> readableBytes b' = readableBytes b + n
          \<and> (n \<le> writableBytes b \<longrightarrow>
                readerIndex b' = readerIndex b \<and> writerIndex b' = writerIndex b + n
                \<and> length (buffer b') = length (buffer b))"
  proof (cases "n \<le> writableBytes b")
    case True
    define b' where "b' = b\<lparr> buffer := std_copy (take n d) (buffer b) (writerIndex b),
                               writerIndex := writerIndex b + n \<rparr>"
    have ln: "length (take n d) = n" and nd: "min (length d) n = n" by (simp_all add: n_def)
    have rf: "readFd (FdData d) savedErrno b = Inr (int n, savedErrno, b')"
      using readFd_fits[OF assms, of d savedErrno] True by (simp add: n_def b'_def)
    have "length (take n d) \<le> writableBytes b" using True ln by simp
    from write_tail[OF assms this]
    have "buf_inv b' \<and> readable b' = readable b @ take n d
          \<and> readableBytes b' = readableBytes b + n"
      by (simp add: nd b'_def)
    moreover have "readerIndex b' = readerIndex b" "writerIndex b' = writerIndex b + n"
      "length (buffer b') = length (buffer b)"
      by (simp_all add: b'_def)
    ultimately show ?thesis using rf by simp
  next
    case False
    then have "writableBytes b < min (length d) (readFd_capacity b)"
      unfolding n_def by linarith
    from readFd_overflow[OF assms this, of savedErrno] False show ?thesis
      by (auto simp add: n_def)
  qed
  then show ?thesis
    using bound by (auto simp add: readFd_iovcnt_def extrabuf_size_def readFd_error n_def cap)
qed

theorem readFd_scatter_read_witness:
  "buf_inv \<lparr>buffer = [0, 0, 0, 0, 0, 0, 0, 0, 1, 0], readerIndex = 8, writerIndex = 9\<rparr>
   \<and> readFd_iovcnt \<lparr>buffer = [0, 0, 0, 0, 0, 0, 0, 0, 1, 0], readerIndex = 8, writerIndex = 9\<rparr>
       = 2
   \<and> (\<exists>b'. readFd (FdData [7, 8, 9]) 0
               \<lparr>buffer = [0, 0, 0, 0, 0, 0, 0, 0, 1, 0], readerIndex = 8, writerIndex = 9\<rparr>
             = Inr (3, 0, b')
          \<and> readable b' = [1, 7, 8, 9] \<and> readableBytes b' = 4)"
proof -
  define B where "B = \<lparr>buffer = [0, 0, 0, 0, 0, 0, 0, 0, 1, 0 :: byte], readerIndex = 8,
                        writerIndex = 9\<rparr>"
  have inv: "buf_inv B" by (simp add: B_def buf_inv_def kCheapPrepend_def)
  have f: "writableBytes B = 1" "readableBytes B = 1" "readable B = [1]"
    by (simp_all add: B_def writableBytes_def readableBytes_def size_sub_def readable_def
        peek_bytes_def numeral_eq_Suc)
  from readFd_scatter_read[OF inv, of 0 0 "[7, 8, 9]"] obtain n b' where
    *: "readFd_iovcnt B = (if writableBytes B < 65536 then 2 else 1)"
       "readFd (FdData [7, 8, 9]) 0 B = Inr (int n, 0, b')"
       "n = min (length [7, 8, 9 :: byte])
              (if writableBytes B < 65536 then writableBytes B + 65536 else writableBytes B)"
       "readable b' = readable B @ take n [7, 8, 9]"
       "readableBytes b' = readableBytes B + n"
    by blast
  have n: "n = 3" using *(3) by (simp add: f)
  show ?thesis
    unfolding B_def[symmetric] using inv * by (simp add: n f)
qed

section \<open>Integers in network byte order\<close>

lemma length_be_bytes [simp]: "length (be_bytes n w) = n"
  by (induction n arbitrary: w) auto

lemma from_be_snoc: "from_be (xs @ [b]) = push_bit 8 (from_be xs) OR ucast b"
  by (simp add: from_be_def)

lemma from_be_be_bytes_take: "(from_be (be_bytes n w) :: 'a::len word) = take_bit (8 * n) w"
proof (induction n arbitrary: w)
  case 0 show ?case by (simp add: from_be_def)
next
  case (Suc n)
  show ?case unfolding be_bytes.simps from_be_snoc Suc
    by (rule bit_word_eqI) (auto simp add: bit_simps)
qed

lemma from_be_be_bytes:
  "LENGTH('a) \<le> 8 * n \<Longrightarrow> (from_be (be_bytes n w) :: 'a::len word) = w"
  by (simp add: from_be_be_bytes_take take_bit_word_eq_self)

lemma bit_from_be: "bit (from_be bs :: 'a::len word) i \<Longrightarrow> i < 8 * length bs"
proof (induction bs arbitrary: i rule: rev_induct)
  case Nil then show ?case by (simp add: from_be_def)
next
  case (snoc b bs)
  from snoc.prems have "bit (from_be bs :: 'a word) (i - 8) \<and> 8 \<le> i \<or> i < 8"
    by (auto simp add: from_be_snoc bit_simps dest: bit_imp_le_length)
  then show ?case
  proof
    assume a: "bit (from_be bs :: 'a word) (i - 8) \<and> 8 \<le> i"
    then have "i - 8 < 8 * length bs" using snoc.IH by blast
    with a show ?thesis by simp
  next
    assume "i < 8" then show ?thesis by simp
  qed
qed

lemma be_bytes_from_be:
  "8 * length bs \<le> LENGTH('a) \<Longrightarrow> be_bytes (length bs) (from_be bs :: 'a::len word) = bs"
proof (induction bs rule: rev_induct)
  case Nil show ?case by simp
next
  case (snoc b bs)
  have d: "drop_bit 8 (push_bit 8 (from_be bs :: 'a word) OR ucast b) = from_be bs"
  proof (rule bit_word_eqI)
    fix i assume "i < LENGTH('a)"
    show "bit (drop_bit 8 (push_bit 8 (from_be bs :: 'a word) OR ucast b)) i
          = bit (from_be bs :: 'a word) i"
    proof (cases "bit (from_be bs :: 'a word) i")
      case True
      then have "i < 8 * length bs" by (rule bit_from_be)
      with snoc.prems have "8 + i < LENGTH('a)" by simp
      with True show ?thesis
        by (auto simp add: bit_simps dest: bit_imp_le_length)
    next
      case False
      then show ?thesis
        by (auto simp add: bit_simps dest: bit_imp_le_length)
    qed
  qed
  have u: "(ucast (push_bit 8 (from_be bs :: 'a word) OR ucast b) :: byte) = b"
    using snoc.prems
    by (intro bit_word_eqI) (auto simp add: bit_simps)
  have ih: "be_bytes (length bs) (from_be bs :: 'a word) = bs"
    using snoc by simp
  have "be_bytes (length (bs @ [b])) (from_be (bs @ [b]) :: 'a word) =
        be_bytes (length bs) (drop_bit 8 (from_be (bs @ [b]) :: 'a word))
          @ [ucast (from_be (bs @ [b]) :: 'a word)]"
    by simp
  also have "\<dots> = bs @ [b]"
    unfolding from_be_snoc d u ih ..
  finally show ?case .
qed

lemma byte_swap_involution:
  "LENGTH('a) = 8 * n \<Longrightarrow> byte_swap n (byte_swap n (w :: 'a::len word)) = w"
  using be_bytes_from_be[of "rev (be_bytes n w)", where 'a='a]
  by (simp add: byte_swap_def from_be_be_bytes)

lemma mem_bytes_hostToNetwork:
  assumes "LENGTH('a) = 8 * n"
  shows "mem_bytes e n (hostToNetwork e n (x :: 'a::len word)) = be_bytes n x"
proof (cases e)
  case LittleEndian
  have "be_bytes n (from_be (rev (be_bytes n x)) :: 'a word) = rev (be_bytes n x)"
    using be_bytes_from_be[of "rev (be_bytes n x)", where 'a='a] assms by simp
  with LittleEndian show ?thesis
    by (simp add: mem_bytes_def hostToNetwork_def byte_swap_def)
next
  case BigEndian
  then show ?thesis by (simp add: mem_bytes_def hostToNetwork_def)
qed

lemma networkToHost_mem_value:
  assumes "LENGTH('a) = 8 * n"
  shows "networkToHost e n (mem_value e (be_bytes n (x :: 'a::len word))) = x"
proof (cases e)
  case LittleEndian
  have "byte_swap n (byte_swap n x) = x" using assms by (rule byte_swap_involution)
  with LittleEndian show ?thesis
    by (simp add: networkToHost_def mem_value_def byte_swap_def)
next
  case BigEndian
  with assms show ?thesis
    by (simp add: networkToHost_def mem_value_def from_be_be_bytes)
qed

lemma appendInt_wire:
  assumes "buf_inv b"
  shows "\<exists>b'. appendInt e v b = Inr b' \<and> buf_inv b' \<and> readable b' = readable b @ wire v"
proof (cases v)
  case (I8 x)
  with append_ok[OF assms, of "[x]"] show ?thesis by (auto simp add: appendInt8_def)
next
  case (I16 x)
  have "mem_bytes e 2 (hostToNetwork e 2 x) = be_bytes 2 x"
    by (rule mem_bytes_hostToNetwork) simp
  with I16 append_ok[OF assms, of "be_bytes 2 x"] show ?thesis
    by (auto simp add: appendInt16_def hostToNetwork16_def Let_def)
next
  case (I32 x)
  have "mem_bytes e 4 (hostToNetwork e 4 x) = be_bytes 4 x"
    by (rule mem_bytes_hostToNetwork) simp
  with I32 append_ok[OF assms, of "be_bytes 4 x"] show ?thesis
    by (auto simp add: appendInt32_def hostToNetwork32_def Let_def)
next
  case (I64 x)
  have "mem_bytes e 8 (hostToNetwork e 8 x) = be_bytes 8 x"
    by (rule mem_bytes_hostToNetwork) simp
  with I64 append_ok[OF assms, of "be_bytes 8 x"] show ?thesis
    by (auto simp add: appendInt64_def hostToNetwork64_def Let_def)
qed

lemma length_wire [simp]: "length (wire v) = width_bytes (width_of v)"
  by (cases v) simp_all

lemma peek_bytes_prefix:
  assumes "buf_inv b" "readable b = xs @ rest"
  shows "peek_bytes b (length xs) = xs"
proof -
  have "length (readable b) = readableBytes b" using assms(1) by (rule length_readable)
  with assms(2) have le: "length xs \<le> readableBytes b" by simp
  have "peek_bytes b (length xs) = take (length xs) (readable b)"
    using le by (simp add: readable_def peek_bytes_def min_absorb1)
  with assms(2) show ?thesis by simp
qed

lemma peek_first:
  assumes "buf_inv b" "readable b = x # rest"
  shows "buffer b ! readerIndex b = x"
proof -
  have l: "length (readable b) = readableBytes b" using assms(1) by (rule length_readable)
  with assms(2) have pos: "0 < readableBytes b" by simp
  then have r: "readerIndex b < length (buffer b)"
    using assms(1) by (simp add: buf_inv_readableBytes buf_inv_def)
  have "readable b ! 0 = buffer b ! readerIndex b"
    using pos r by (simp add: readable_def peek_bytes_def)
  with assms(2) show ?thesis by simp
qed

lemma retrieve_indices:
  "retrieve k b = Inr b' \<Longrightarrow>
   (if k < readableBytes b
    then readerIndex b' = readerIndex b + k \<and> writerIndex b' = writerIndex b
    else readerIndex b' = 8 \<and> writerIndex b' = 8)"
  by (auto simp add: retrieve_def retrieveAll_def kCheapPrepend_def split: if_splits)

lemma peekInt_wire:
  assumes "buf_inv b" "readable b = wire v @ rest"
  shows "peekInt e (width_of v) b = Inr v"
proof -
  have "length (readable b) = readableBytes b" using assms(1) by (rule length_readable)
  with assms(2) have le: "width_bytes (width_of v) \<le> readableBytes b" by simp
  have pk: "peek_bytes b (length (wire v)) = wire v"
    using assms by (rule peek_bytes_prefix)
  show ?thesis
  proof (cases v)
    case (I8 x)
    with assms have "buffer b ! readerIndex b = x" by (auto intro: peek_first)
    with I8 le show ?thesis by (simp add: peekInt8_def)
  next
    case (I16 x)
    have "networkToHost e 2 (mem_value e (be_bytes 2 x)) = x"
      by (rule networkToHost_mem_value) simp
    with I16 le pk show ?thesis by (simp add: peekInt16_def networkToHost16_def)
  next
    case (I32 x)
    have "networkToHost e 4 (mem_value e (be_bytes 4 x)) = x"
      by (rule networkToHost_mem_value) simp
    with I32 le pk show ?thesis by (simp add: peekInt32_def networkToHost32_def)
  next
    case (I64 x)
    have "networkToHost e 8 (mem_value e (be_bytes 8 x)) = x"
      by (rule networkToHost_mem_value) simp
    with I64 le pk show ?thesis by (simp add: peekInt64_def networkToHost64_def)
  qed
qed

lemma readInt_peek_retrieve:
  "readInt e w b =
     (case peekInt e w b of Inl err \<Rightarrow> Inl err
      | Inr v \<Rightarrow> (case retrieve (width_bytes w) b of Inl err \<Rightarrow> Inl err
                  | Inr b' \<Rightarrow> Inr (v, b')))"
  by (cases w)
     (auto simp add: readInt8_def readInt16_def readInt32_def readInt64_def
        retrieveInt8_def retrieveInt16_def retrieveInt32_def retrieveInt64_def
        split: sum.splits)

lemma readInt_wire:
  assumes "buf_inv b" "readable b = wire v @ rest"
  shows "\<exists>b'. readInt e (width_of v) b = Inr (v, b') \<and> buf_inv b' \<and> readable b' = rest
           \<and> readableBytes b' + width_bytes (width_of v) = readableBytes b
           \<and> (if width_bytes (width_of v) < readableBytes b
               then readerIndex b' = readerIndex b + width_bytes (width_of v)
                    \<and> writerIndex b' = writerIndex b
               else readerIndex b' = 8 \<and> writerIndex b' = 8)"
proof -
  define k where "k = width_bytes (width_of v)"
  have "length (readable b) = readableBytes b" using assms(1) by (rule length_readable)
  with assms(2) have le: "k \<le> readableBytes b" by (simp add: k_def)
  from retrieve_ok[OF assms(1) le] obtain b' where
    b': "retrieve k b = Inr b'" "buf_inv b'" "readable b' = drop k (readable b)"
        "readableBytes b' = readableBytes b - k"
    by blast
  have "readInt e (width_of v) b = Inr (v, b')"
    using peekInt_wire[OF assms, of e] b'(1) by (simp add: readInt_peek_retrieve k_def)
  moreover have "readable b' = rest" using b'(3) assms(2) by (simp add: k_def)
  moreover have "readableBytes b' + k = readableBytes b" using b'(4) le by simp
  ultimately show ?thesis
    using b'(2) retrieve_indices[OF b'(1)] unfolding k_def by auto
qed

lemma run_ints_fifo:
  assumes "buf_inv b" "readable b = concat (map wire q)" "fifo_ints ops q = Some (outs, q')"
  shows "\<exists>b'. run_ints e ops b = Inr (outs, b') \<and> buf_inv b'
           \<and> readable b' = concat (map wire q')"
  using assms
proof (induction ops q arbitrary: b outs rule: fifo_ints.induct)
  case (1 q)
  then show ?case by simp
next
  case (2 v ops q)
  from appendInt_wire[OF "2.prems"(1), of e v] obtain b1 where
    b1: "appendInt e v b = Inr b1" "buf_inv b1" "readable b1 = readable b @ wire v"
    by blast
  have "readable b1 = concat (map wire (q @ [v]))"
    using b1(3) "2.prems"(2) by simp
  from "2.IH"[OF b1(2) this] "2.prems"(3) b1(1) show ?case by simp
next
  case (3 w ops q)
  from "3.prems"(3) obtain v q1 where q: "q = v # q1" and w: "width_of v = w"
    by (cases q) (auto split: if_splits)
  from "3.prems"(3) q w obtain vs where
    f: "fifo_ints ops q1 = Some (vs, q')" and outs: "outs = v # vs"
    by (auto split: option.splits)
  have "readable b = wire v @ concat (map wire q1)"
    using "3.prems"(2) q by simp
  from readInt_wire[OF "3.prems"(1) this, of e] w obtain b1 where
    b1: "readInt e w b = Inr (v, b1)" "buf_inv b1" "readable b1 = concat (map wire q1)"
    by auto
  from "3.IH"[OF q w b1(2) b1(3) f] obtain b' where
    "run_ints e ops b1 = Inr (vs, b')" "buf_inv b'" "readable b' = concat (map wire q')"
    by blast
  with b1(1) outs show ?case by simp
qed


text \<open>
  A 32-bit value appended to a fresh buffer and read back: the read drains the buffer,
  so the reader index is 8 before the read and 8 after it, not 12.
\<close>

lemma be_bytes_4:
  "be_bytes 4 w =
     [ucast (drop_bit 24 w), ucast (drop_bit 16 w), ucast (drop_bit 8 w), ucast w]"
  by (simp add: numeral_eq_Suc drop_bit_drop_bit)

theorem readInt_reader_counterexample:
  "appendInt BigEndian (I32 5)
      \<lparr>buffer = [0, 0, 0, 0, 0, 0, 0, 0, 0, 0, 0, 0], readerIndex = 8, writerIndex = 8\<rparr>
     = Inr \<lparr>buffer = [0, 0, 0, 0, 0, 0, 0, 0, 0, 0, 0, 5], readerIndex = 8, writerIndex = 12\<rparr>
   \<and> readInt BigEndian W32
         \<lparr>buffer = [0, 0, 0, 0, 0, 0, 0, 0, 0, 0, 0, 5], readerIndex = 8, writerIndex = 12\<rparr>
     = Inr (I32 5,
            \<lparr>buffer = [0, 0, 0, 0, 0, 0, 0, 0, 0, 0, 0, 5], readerIndex = 8, writerIndex = 8\<rparr>)"
proof -
  have a: "be_bytes 4 (5 :: 32 word) = [0, 0, 0, 5]"
    by (simp add: be_bytes_4)
  have b: "(from_be [0, 0, 0, 5] :: 32 word) = 5"
    by (simp add: from_be_def)
  show ?thesis
    by (simp add: appendInt32_def hostToNetwork32_def hostToNetwork_def mem_bytes_def a
        append_def ensureWritableBytes_def hasWritten_def writableBytes_def size_sub_def
        readInt32_def peekInt32_def retrieveInt32_def retrieve_def retrieveAll_def
        readableBytes_def peek_bytes_def networkToHost32_def networkToHost_def mem_value_def b
        kCheapPrepend_def Let_def)
qed


text \<open>
  C7, amended. On a host of either endianness, for every interleaving of typed appends
  and typed reads in which each read has the width of the oldest value not yet read,
  the reads return the values written, in FIFO order. \<^verbatim>\<open>peekIntN\<close> returns the value that
  \<^verbatim>\<open>readIntN\<close> returns and leaves the buffer alone. \<^verbatim>\<open>readIntN\<close> takes exactly \<open>N/8\<close>
  bytes from the readable ones: the reader index advances by \<open>N/8\<close> when more than
  \<open>N/8\<close> bytes were readable, and both indices are reset to the headroom of 8 when
  exactly \<open>N/8\<close> were.
\<close>

theorem typed_ints_round_trip:
  assumes "buf_inv b" "readable b = concat (map wire q)" "fifo_ints ops q = Some (outs, q')"
  shows "(\<exists>b'. run_ints e ops b = Inr (outs, b') \<and> readable b' = concat (map wire q'))
    \<and> (\<forall>v rest. q = v # rest \<longrightarrow>
          peekInt e (width_of v) b = Inr v
          \<and> (\<exists>b'. readInt e (width_of v) b = Inr (v, b')
                \<and> readableBytes b' + width_bytes (width_of v) = readableBytes b
                \<and> (if width_bytes (width_of v) < readableBytes b
                    then readerIndex b' = readerIndex b + width_bytes (width_of v)
                         \<and> writerIndex b' = writerIndex b
                    else readerIndex b' = 8 \<and> writerIndex b' = 8)))"
proof -
  have "\<exists>b'. run_ints e ops b = Inr (outs, b') \<and> readable b' = concat (map wire q')"
    using run_ints_fifo[OF assms, of e] by blast
  moreover have "peekInt e (width_of v) b = Inr v
          \<and> (\<exists>b'. readInt e (width_of v) b = Inr (v, b')
                \<and> readableBytes b' + width_bytes (width_of v) = readableBytes b
                \<and> (if width_bytes (width_of v) < readableBytes b
                    then readerIndex b' = readerIndex b + width_bytes (width_of v)
                         \<and> writerIndex b' = writerIndex b
                    else readerIndex b' = 8 \<and> writerIndex b' = 8))"
    if "q = v # rest" for v rest
  proof -
    have rd: "readable b = wire v @ concat (map wire rest)"
      using assms(2) that by simp
    from peekInt_wire[OF assms(1) rd, of e] readInt_wire[OF assms(1) rd, of e]
    show ?thesis by blast
  qed
  ultimately show ?thesis by blast
qed


theorem typed_ints_round_trip_witness:
  "buf_inv \<lparr>buffer = [0, 0, 0, 0, 0, 0, 0, 0, 7, 0], readerIndex = 8, writerIndex = 9\<rparr>
   \<and> readable \<lparr>buffer = [0, 0, 0, 0, 0, 0, 0, 0, 7, 0], readerIndex = 8, writerIndex = 9\<rparr>
       = concat (map wire [I8 7])
   \<and> fifo_ints [WriteInt (I16 258), ReadInt W8, WriteInt (I64 9), ReadInt W16] [I8 7]
       = Some ([I8 7, I16 258], [I64 9])
   \<and> (\<exists>b'. run_ints LittleEndian [WriteInt (I16 258), ReadInt W8, WriteInt (I64 9), ReadInt W16]
               \<lparr>buffer = [0, 0, 0, 0, 0, 0, 0, 0, 7, 0], readerIndex = 8, writerIndex = 9\<rparr>
             = Inr ([I8 7, I16 258], b')
          \<and> readable b' = wire (I64 9))
   \<and> peekInt LittleEndian W8
        \<lparr>buffer = [0, 0, 0, 0, 0, 0, 0, 0, 7, 0], readerIndex = 8, writerIndex = 9\<rparr>
       = Inr (I8 7)
   \<and> (\<exists>b'. readInt LittleEndian W8
               \<lparr>buffer = [0, 0, 0, 0, 0, 0, 0, 0, 7, 0], readerIndex = 8, writerIndex = 9\<rparr>
             = Inr (I8 7, b')
          \<and> readerIndex b' = 8 \<and> writerIndex b' = 8)"
proof -
  define B where "B = \<lparr>buffer = [0, 0, 0, 0, 0, 0, 0, 0, 7, 0 :: byte], readerIndex = 8,
                        writerIndex = 9\<rparr>"
  have inv: "buf_inv B" by (simp add: B_def buf_inv_def kCheapPrepend_def)
  have rb: "readableBytes B = 1"
    by (simp add: B_def readableBytes_def size_sub_def)
  have rd: "readable B = concat (map wire [I8 7])"
    by (simp add: B_def readable_def peek_bytes_def readableBytes_def size_sub_def
        numeral_eq_Suc)
  have ff: "fifo_ints [WriteInt (I16 258), ReadInt W8, WriteInt (I64 9), ReadInt W16] [I8 7]
       = Some ([I8 7, I16 258], [I64 9])"
    by simp
  from typed_ints_round_trip[OF inv rd ff, of LittleEndian]
  show ?thesis
    unfolding B_def[symmetric] using inv rd ff by (simp add: rb) blast
qed


section \<open>Accepting connections\<close>

text \<open>
  \<^verbatim>\<open>accept4\<close> failing with \<^verbatim>\<open>EBADF\<close>: \<^verbatim>\<open>sockets::accept\<close> reaches \<^verbatim>\<open>LOG_FATAL\<close> and the
  process is aborted; \<^verbatim>\<open>Socket::accept\<close> does not return \<open>-1\<close>.
\<close>

theorem Socket_accept_fatal_counterexample:
  "Socket_accept (AcceptErr EBADF) [1, 2, 3] 0 = Inl LogFatal"
  by (simp add: Socket_accept_def sockets_accept_def EBADF_def EAGAIN_def ECONNABORTED_def
      EINTR_def EPROTO_def EPERM_def EMFILE_def)


text \<open>
  C9, amended. When \<^verbatim>\<open>accept4\<close> succeeds \<^verbatim>\<open>Socket::accept\<close> returns the new descriptor,
  which is not negative, and \<^verbatim>\<open>*peeraddr\<close> is the peer's address. When it fails with
  \<^verbatim>\<open>EAGAIN\<close>, \<^verbatim>\<open>ECONNABORTED\<close>, \<^verbatim>\<open>EINTR\<close>, \<^verbatim>\<open>EPROTO\<close>, \<^verbatim>\<open>EPERM\<close> or \<^verbatim>\<open>EMFILE\<close>,
  \<^verbatim>\<open>Socket::accept\<close> returns \<open>-1\<close> with \<^verbatim>\<open>*peeraddr\<close> unchanged and \<^verbatim>\<open>errno\<close> kept. When it
  fails with any other \<^verbatim>\<open>errno\<close> the process is aborted by \<^verbatim>\<open>LOG_FATAL\<close> and the call does
  not return.
\<close>

theorem Socket_accept_outcomes:
  "Socket_accept (AcceptOk fd peer) peeraddr errno = Inr (int fd, peer, errno)
   \<and> 0 \<le> int fd
   \<and> (accept_transient savedErrno \<longrightarrow>
        Socket_accept (AcceptErr savedErrno) peeraddr errno = Inr (- 1, peeraddr, savedErrno))
   \<and> (\<not> accept_transient savedErrno \<longrightarrow>
        Socket_accept (AcceptErr savedErrno) peeraddr errno = Inl LogFatal)"
  by (simp add: Socket_accept_def sockets_accept_def setSockAddrInet6_def accept_transient_def)

theorem Socket_accept_outcomes_witness:
  "accept_transient EMFILE \<and> \<not> accept_transient ENOMEM
   \<and> Socket_accept (AcceptOk 7 [9, 9]) [1, 2, 3] 0 = Inr (7, [9, 9], 0)
   \<and> Socket_accept (AcceptErr EMFILE) [1, 2, 3] 0 = Inr (- 1, [1, 2, 3], EMFILE)
   \<and> Socket_accept (AcceptErr ENOMEM) [1, 2, 3] 0 = Inl LogFatal"
proof -
  have t: "accept_transient EMFILE" and f: "\<not> accept_transient ENOMEM"
    by (simp_all add: accept_transient_def EBADF_def EAGAIN_def ECONNABORTED_def
      EINTR_def EPROTO_def EPERM_def EMFILE_def ENOMEM_def)
  from Socket_accept_outcomes[of 7 "[9, 9]" "[1, 2, 3]" 0 EMFILE]
       Socket_accept_outcomes[of 7 "[9, 9]" "[1, 2, 3]" 0 ENOMEM]
  show ?thesis using t f by simp
qed

lemma k_alloc_None: "k_alloc k = None \<longleftrightarrow> (\<forall>n < fd_limit k. n \<in> set (open_fds k))"
  by (auto simp add: k_alloc_def find_None_iff)

lemma k_alloc_after_close:
  assumes "k_alloc k = None" "i < fd_limit k"
  shows "k_alloc (k\<lparr> open_fds := removeAll i (open_fds k) \<rparr>) = Some i"
proof -
  have all: "\<forall>n < fd_limit k. n \<in> set (open_fds k)"
    using assms(1) by (simp add: k_alloc_None)
  have "find (\<lambda>n. n \<notin> set (removeAll i (open_fds k))) [0..<fd_limit k] = Some i"
    unfolding find_Some_iff
  proof (intro exI[of _ i] conjI allI impI)
    show "i < length [0..<fd_limit k]" using assms(2) by simp
    show "[0..<fd_limit k] ! i \<notin> set (removeAll i (open_fds k))" using assms(2) by simp
    show "i = [0..<fd_limit k] ! i" using assms(2) by simp
  next
    fix j assume "j < i"
    with assms(2) all have "j \<in> set (open_fds k)" "j \<noteq> i" "[0..<fd_limit k] ! j = j" by auto
    then show "\<not> [0..<fd_limit k] ! j \<notin> set (removeAll i (open_fds k))" by simp
  qed
  then show ?thesis by (simp add: k_alloc_def)
qed

lemma k_alloc_slot:
  assumes "k_alloc k = None" "i < fd_limit k" "fd_limit k' = fd_limit k"
    "open_fds k' = removeAll i (open_fds k)"
  shows "k_alloc k' = Some i"
  using k_alloc_after_close[OF assms(1,2)] assms(3,4) by (simp add: k_alloc_def)


text \<open>
  When the accept in \<^verbatim>\<open>Acceptor::handleRead\<close> fails with \<^verbatim>\<open>EMFILE\<close> and \<^verbatim>\<open>errno\<close> still is
  \<^verbatim>\<open>EMFILE\<close> after the log line has been written, the handler returns after exactly these
  calls, in this order: the failed accept, \<^verbatim>\<open>close\<close> of the idle descriptor, \<^verbatim>\<open>accept\<close> on
  the listening socket, \<^verbatim>\<open>close\<close> of what that accept returned, \<^verbatim>\<open>open\<close> of \<^verbatim>\<open>/dev/null\<close>,
  whose result is the new idle descriptor. When the idle descriptor was open and below the
  limit and a connection was waiting, the second accept takes that connection out of the
  listen queue, and the idle descriptor is open again afterwards.
\<close>

lemma Acceptor_handleRead_errno_kept:
  assumes "fst (k_accept k) = AcceptErr EMFILE" "LOG_SYSERR l EMFILE = EMFILE"
  shows "\<exists>a' k' c idle'.
           Acceptor_handleRead l errno a k =
             Inr (a', k', [SysAccept4 (acceptSocket a) (- 1),
                           SysClose (idleFd a),
                           SysAccept (acceptSocket a) c,
                           SysClose c,
                           SysOpen ''/dev/null'' idle'])
           \<and> idleFd a' = idle'
           \<and> (0 \<le> idleFd a \<and> nat (idleFd a) < fd_limit k \<and> backlog k \<noteq> [] \<longrightarrow>
                c = idleFd a \<and> idle' = idleFd a
                \<and> backlog k' = tl (backlog k)
                \<and> open_fds k' = nat (idleFd a) # removeAll (nat (idleFd a)) (open_fds k)
                \<and> fd_limit k' = fd_limit k)"
proof -
  have none: "k_alloc k = None"
    using assms(1) by (auto simp add: k_accept_def EMFILE_def EAGAIN_def
        split: option.splits list.splits)
  then have ka: "k_accept k = (AcceptErr EMFILE, k)" by (simp add: k_accept_def)
  have sa: "Socket_accept (AcceptErr EMFILE) memZero_sockaddr_in6 errno
             = Inr (- 1, memZero_sockaddr_in6, EMFILE)"
    by (simp add: Socket_accept_def sockets_accept_def)
  obtain rc1 k2 where c1: "k_close (idleFd a) k = (rc1, k2)" by (cases "k_close (idleFd a) k")
  obtain r2 k3 where a2: "k_accept k2 = (r2, k3)" by (cases "k_accept k2")
  obtain rc2 k4 where c2: "k_close (accept_fd r2) k3 = (rc2, k4)"
    by (cases "k_close (accept_fd r2) k3")
  obtain idle3 k5 where o: "k_open k4 = (idle3, k5)" by (cases "k_open k4")
  have run: "Acceptor_handleRead l errno a k =
             Inr (a\<lparr> idleFd := idle3 \<rparr>, k5,
                  [SysAccept4 (acceptSocket a) (- 1), SysClose (idleFd a),
                   SysAccept (acceptSocket a) (accept_fd r2), SysClose (accept_fd r2),
                   SysOpen ''/dev/null'' idle3])"
    by (simp add: Acceptor_handleRead_def ka sa c1 a2 c2 o assms(2) Let_def)
  have prog: "accept_fd r2 = idleFd a \<and> idle3 = idleFd a \<and> backlog k5 = tl (backlog k)
              \<and> open_fds k5 = nat (idleFd a) # removeAll (nat (idleFd a)) (open_fds k)
              \<and> fd_limit k5 = fd_limit k"
    if h: "0 \<le> idleFd a" "nat (idleFd a) < fd_limit k" "backlog k \<noteq> []"
  proof -
    define i where "i = nat (idleFd a)"
    have ii: "int i = idleFd a" using h(1) by (simp add: i_def)
    have "i \<in> set (open_fds k)" using none h(2) by (simp add: k_alloc_None i_def)
    then have k2: "k2 = k\<lparr> open_fds := removeAll i (open_fds k) \<rparr>"
      using c1 h(1) by (simp add: k_close_def i_def)
    have al2: "k_alloc k2 = Some i"
      unfolding k2 using none h(2) by (intro k_alloc_after_close) (simp_all add: i_def)
    obtain peer rest where bl: "backlog k = peer # rest" using h(3) by (cases "backlog k") auto
    have r2: "r2 = AcceptOk i peer"
      and k3: "k3 = k2\<lparr> open_fds := i # open_fds k2, backlog := rest \<rparr>"
      using a2 al2 bl by (simp_all add: k_accept_def k2)
    have fd2: "accept_fd r2 = idleFd a" by (simp add: r2 accept_fd_def ii)
    have k4: "k4 = k3\<lparr> open_fds := removeAll i (open_fds k3) \<rparr>"
      using c2 by (simp add: fd2 k_close_def k3 ii[symmetric])
    have "k_alloc k4 = Some i"
      using none h(2) by (intro k_alloc_slot[of k i]) (simp_all add: k4 k3 k2 i_def)
    then have "idle3 = int i" and k5: "k5 = k4\<lparr> open_fds := i # open_fds k4 \<rparr>"
      using o by (simp_all add: k_open_def)
    then show ?thesis
      using fd2 ii bl by (simp add: k4 k3 k2 i_def)
  qed
  from run prog show ?thesis by auto
qed

text \<open>
  C8. \<^verbatim>\<open>Acceptor::handleRead\<close> does not perform the four steps whenever the accept fails
  with \<^verbatim>\<open>EMFILE\<close>. It compares \<^verbatim>\<open>errno\<close> with \<^verbatim>\<open>EMFILE\<close> after \<^verbatim>\<open>LOG_SYSERR\<close>, without having
  saved it (\<^verbatim>\<open>sockets::accept\<close>, which it has just called, saves \<^verbatim>\<open>errno\<close> around the same
  macro). With four descriptors open at a limit of four, two connections waiting and a
  log write that leaves \<^verbatim>\<open>EBADF\<close> in \<^verbatim>\<open>errno\<close>, the accept fails with \<^verbatim>\<open>EMFILE\<close> and the handler
  returns after that one call: nothing is closed, the listen queue keeps both
  connections. With a log write that leaves \<^verbatim>\<open>errno\<close> alone, the same call closes the idle
  descriptor, accepts and closes the first waiting connection and reopens \<^verbatim>\<open>/dev/null\<close>.
\<close>

theorem Acceptor_handleRead_EMFILE_errno_lost:
  "fst (k_accept \<lparr>open_fds = [0, 1, 2, 3], fd_limit = 4, backlog = [[1], [2]]\<rparr>)
     = AcceptErr EMFILE
   \<and> Acceptor_handleRead (LogSetsErrno EBADF) 0
        \<lparr>acceptSocket = 3, idleFd = 2, newConnectionCallback = True\<rparr>
        \<lparr>open_fds = [0, 1, 2, 3], fd_limit = 4, backlog = [[1], [2]]\<rparr>
      = Inr (\<lparr>acceptSocket = 3, idleFd = 2, newConnectionCallback = True\<rparr>,
             \<lparr>open_fds = [0, 1, 2, 3], fd_limit = 4, backlog = [[1], [2]]\<rparr>,
             [SysAccept4 3 (- 1)])
   \<and> Acceptor_handleRead LogKeepsErrno 0
        \<lparr>acceptSocket = 3, idleFd = 2, newConnectionCallback = True\<rparr>
        \<lparr>open_fds = [0, 1, 2, 3], fd_limit = 4, backlog = [[1], [2]]\<rparr>
      = Inr (\<lparr>acceptSocket = 3, idleFd = 2, newConnectionCallback = True\<rparr>,
             \<lparr>open_fds = [2, 0, 1, 3], fd_limit = 4, backlog = [[2]]\<rparr>,
             [SysAccept4 3 (- 1), SysClose 2, SysAccept 3 2, SysClose 2,
              SysOpen ''/dev/null'' 2])"
  by (simp add: Acceptor_handleRead_def Let_def k_accept_def k_alloc_def k_close_def k_open_def
      upt_rec Socket_accept_def sockets_accept_def accept_fd_def LOG_SYSERR_def
      EMFILE_def EBADF_def memZero_sockaddr_in6_def)


section \<open>The connection\<close>

text \<open>
  C10. \<^verbatim>\<open>send\<close> (of bytes or of a buffer) on a connection whose state is not
  \<^verbatim>\<open>kConnected\<close>, and \<^verbatim>\<open>sendInLoop\<close> entered in state \<^verbatim>\<open>kDisconnected\<close>, return the
  connection as it was: nothing is written to the socket, the output buffer and the
  channel's interest are unchanged, and no functor is queued; the caller's buffer is
  not consumed.
\<close>

theorem send_not_connected_noop:
  "(state c \<noteq> kConnected \<longrightarrow> send message inLoopThread wr c = Inr c)
   \<and> (state c \<noteq> kConnected \<longrightarrow> send_Buffer buf inLoopThread wr c = Inr (c, buf))
   \<and> (state c = kDisconnected \<longrightarrow> sendInLoop message wr c = Inr c)"
  by (simp add: send_def send_Buffer_def sendInLoop_def)

theorem send_not_connected_noop_witness:
  "state \<lparr>state = kDisconnecting, reading = True,
           channel = \<lparr>isReading = True, isWriting = False\<rparr>,
           inputBuffer = \<lparr>buffer = replicate 12 0, readerIndex = 8, writerIndex = 8\<rparr>,
           outputBuffer = \<lparr>buffer = replicate 12 0, readerIndex = 8, writerIndex = 8\<rparr>,
           highWaterMark = 4, writeCompleteCallback = True, highWaterMarkCallback = True,
           pendingFunctors = [], effects = [SockShutdownWrite]\<rparr> \<noteq> kConnected
   \<and> send [1, 2] True (WriteRoom 5)
         \<lparr>state = kDisconnecting, reading = True,
           channel = \<lparr>isReading = True, isWriting = False\<rparr>,
           inputBuffer = \<lparr>buffer = replicate 12 0, readerIndex = 8, writerIndex = 8\<rparr>,
           outputBuffer = \<lparr>buffer = replicate 12 0, readerIndex = 8, writerIndex = 8\<rparr>,
           highWaterMark = 4, writeCompleteCallback = True, highWaterMarkCallback = True,
           pendingFunctors = [], effects = [SockShutdownWrite]\<rparr>
       = Inr \<lparr>state = kDisconnecting, reading = True,
               channel = \<lparr>isReading = True, isWriting = False\<rparr>,
               inputBuffer = \<lparr>buffer = replicate 12 0, readerIndex = 8, writerIndex = 8\<rparr>,
               outputBuffer = \<lparr>buffer = replicate 12 0, readerIndex = 8, writerIndex = 8\<rparr>,
               highWaterMark = 4, writeCompleteCallback = True, highWaterMarkCallback = True,
               pendingFunctors = [], effects = [SockShutdownWrite]\<rparr>
   \<and> sendInLoop [1, 2] (WriteRoom 5)
         \<lparr>state = kDisconnected, reading = True,
           channel = \<lparr>isReading = False, isWriting = False\<rparr>,
           inputBuffer = \<lparr>buffer = replicate 12 0, readerIndex = 8, writerIndex = 8\<rparr>,
           outputBuffer = \<lparr>buffer = replicate 12 0, readerIndex = 8, writerIndex = 8\<rparr>,
           highWaterMark = 4, writeCompleteCallback = True, highWaterMarkCallback = True,
           pendingFunctors = [], effects = []\<rparr>
       = Inr \<lparr>state = kDisconnected, reading = True,
               channel = \<lparr>isReading = False, isWriting = False\<rparr>,
               inputBuffer = \<lparr>buffer = replicate 12 0, readerIndex = 8, writerIndex = 8\<rparr>,
               outputBuffer = \<lparr>buffer = replicate 12 0, readerIndex = 8, writerIndex = 8\<rparr>,
               highWaterMark = 4, writeCompleteCallback = True, highWaterMarkCallback = True,
               pendingFunctors = [], effects = []\<rparr>"
  using send_not_connected_noop[of
          "\<lparr>state = kDisconnecting, reading = True,
           channel = \<lparr>isReading = True, isWriting = False\<rparr>,
           inputBuffer = \<lparr>buffer = replicate 12 0, readerIndex = 8, writerIndex = 8\<rparr>,
           outputBuffer = \<lparr>buffer = replicate 12 0, readerIndex = 8, writerIndex = 8\<rparr>,
           highWaterMark = 4, writeCompleteCallback = True, highWaterMarkCallback = True,
           pendingFunctors = [], effects = [SockShutdownWrite]\<rparr>" "[1, 2]" True "WriteRoom 5"]
        send_not_connected_noop[of
          "\<lparr>state = kDisconnected, reading = True,
           channel = \<lparr>isReading = False, isWriting = False\<rparr>,
           inputBuffer = \<lparr>buffer = replicate 12 0, readerIndex = 8, writerIndex = 8\<rparr>,
           outputBuffer = \<lparr>buffer = replicate 12 0, readerIndex = 8, writerIndex = 8\<rparr>,
           highWaterMark = 4, writeCompleteCallback = True, highWaterMarkCallback = True,
           pendingFunctors = [], effects = []\<rparr>" "[1, 2]" True "WriteRoom 5"]
  by simp


lemma half_closes_simps [simp]:
  "half_closes (emit x c) = half_closes c + (if x = SockShutdownWrite then 1 else 0)"
  "half_closes (queueInLoop t c) = half_closes c"
  "half_closes (c\<lparr> state := s \<rparr>) = half_closes c"
  "half_closes (c\<lparr> channel := ch \<rparr>) = half_closes c"
  "half_closes (c\<lparr> outputBuffer := ob \<rparr>) = half_closes c"
  "half_closes (c\<lparr> inputBuffer := ib \<rparr>) = half_closes c"
  "half_closes (c\<lparr> pendingFunctors := ts \<rparr>) = half_closes c"
  by (simp_all add: half_closes_def emit_def queueInLoop_def)

lemma high_water_calls_simps [simp]:
  "high_water_calls (emit x c) = high_water_calls c"
  "high_water_calls (queueInLoop t c) = high_water_calls c + (if is_high_water t then 1 else 0)"
  "high_water_calls (c\<lparr> state := s \<rparr>) = high_water_calls c"
  "high_water_calls (c\<lparr> channel := ch \<rparr>) = high_water_calls c"
  "high_water_calls (c\<lparr> outputBuffer := ob \<rparr>) = high_water_calls c"
  by (simp_all add: high_water_calls_def emit_def queueInLoop_def)

lemma emit_fields [simp]:
  "state (emit x c) = state c" "channel (emit x c) = channel c"
  "outputBuffer (emit x c) = outputBuffer c" "inputBuffer (emit x c) = inputBuffer c"
  "highWaterMark (emit x c) = highWaterMark c"
  "highWaterMarkCallback (emit x c) = highWaterMarkCallback c"
  "writeCompleteCallback (emit x c) = writeCompleteCallback c"
  "pendingFunctors (emit x c) = pendingFunctors c"
  "effects (emit x c) = effects c @ [x]"
  by (simp_all add: emit_def)

lemma queueInLoop_fields [simp]:
  "state (queueInLoop t c) = state c" "channel (queueInLoop t c) = channel c"
  "outputBuffer (queueInLoop t c) = outputBuffer c"
  "inputBuffer (queueInLoop t c) = inputBuffer c"
  "highWaterMark (queueInLoop t c) = highWaterMark c"
  "highWaterMarkCallback (queueInLoop t c) = highWaterMarkCallback c"
  "writeCompleteCallback (queueInLoop t c) = writeCompleteCallback c"
  "pendingFunctors (queueInLoop t c) = pendingFunctors c @ [t]"
  "effects (queueInLoop t c) = effects c"
  by (simp_all add: queueInLoop_def)

lemma sendInLoop_direct_facts:
  assumes "sendInLoop_direct d wr c = (nwrote, remaining, faultError, c1)"
  shows "nwrote \<le> length d" "remaining = length d - nwrote"
    "state c1 = state c" "channel c1 = channel c" "outputBuffer c1 = outputBuffer c"
    "highWaterMark c1 = highWaterMark c" "highWaterMarkCallback c1 = highWaterMarkCallback c"
    "high_water_calls c1 = high_water_calls c" "half_closes c1 = half_closes c"
    "0 < remaining \<Longrightarrow> pendingFunctors c1 = pendingFunctors c"
  using assms
  by (auto simp add: sendInLoop_direct_def sockets_write_def Let_def is_high_water_def
      split: if_splits write_result.splits)

lemma sendInLoop_buffered:
  assumes "state c \<noteq> kDisconnected" "buf_inv (outputBuffer c)"
    "sendInLoop_direct d wr c = (nwrote, remaining, faultError, c1)"
    "\<not> faultError" "0 < remaining"
  shows "\<exists>c'. sendInLoop d wr c = Inr c'
           \<and> pendingFunctors c' =
               (if readableBytes (outputBuffer c) < highWaterMark c
                   \<and> highWaterMark c \<le> readableBytes (outputBuffer c) + remaining
                   \<and> highWaterMarkCallback c
                then pendingFunctors c
                       @ [HighWaterMarkCallback (readableBytes (outputBuffer c) + remaining)]
                else pendingFunctors c)
           \<and> readableBytes (outputBuffer c') = readableBytes (outputBuffer c) + remaining
           \<and> readable (outputBuffer c') = readable (outputBuffer c) @ drop nwrote d
           \<and> buf_inv (outputBuffer c') \<and> isWriting (channel c')
           \<and> state c' = state c \<and> highWaterMark c' = highWaterMark c
           \<and> highWaterMarkCallback c' = highWaterMarkCallback c
           \<and> half_closes c' = half_closes c"
proof -
  note f = sendInLoop_direct_facts[OF assms(3)]
  from append_ok[OF assms(2), of "drop nwrote d"] obtain ob where
    ob: "append (drop nwrote d) (outputBuffer c) = Inr ob" "buf_inv ob"
        "readable ob = readable (outputBuffer c) @ drop nwrote d"
        "readableBytes ob = readableBytes (outputBuffer c) + length (drop nwrote d)"
    by blast
  have ld: "length (drop nwrote d) = remaining" using f(2) by simp
  have rl: "remaining \<le> length d" using f(2) by simp
  show ?thesis
    using assms(1,4,5) ob ld rl f
    by (auto simp add: sendInLoop_def assms(3) Let_def enableWriting_def)
qed

lemma sendInLoop_unbuffered:
  assumes "state c \<noteq> kDisconnected"
    "sendInLoop_direct d wr c = (nwrote, remaining, faultError, c1)"
    "faultError \<or> remaining = 0"
  shows "sendInLoop d wr c = Inr c1"
  using assms sendInLoop_direct_facts(2)[OF assms(2)]
  by (auto simp add: sendInLoop_def Let_def)

lemma sendInLoop_step:
  assumes "buf_inv (outputBuffer c)"
  shows "\<exists>c'. sendInLoop d wr c = Inr c' \<and> buf_inv (outputBuffer c')
           \<and> highWaterMark c' = highWaterMark c
           \<and> readableBytes (outputBuffer c) \<le> readableBytes (outputBuffer c')
           \<and> high_water_calls c \<le> high_water_calls c'
           \<and> high_water_calls c' \<le> high_water_calls c
                + (if readableBytes (outputBuffer c) < highWaterMark c
                      \<and> highWaterMark c \<le> readableBytes (outputBuffer c') then 1 else 0)"
proof (cases "state c = kDisconnected")
  case True
  with assms show ?thesis by (simp add: sendInLoop_def)
next
  case False
  obtain nwrote remaining faultError c1 where
    dw: "sendInLoop_direct d wr c = (nwrote, remaining, faultError, c1)"
    by (cases "sendInLoop_direct d wr c") auto
  note f = sendInLoop_direct_facts[OF dw]
  show ?thesis
  proof (cases "faultError \<or> remaining = 0")
    case True
    from sendInLoop_unbuffered[OF False dw True] assms f show ?thesis by simp
  next
    case False
    then have nf: "\<not> faultError" "0 < remaining" by simp_all
    from sendInLoop_buffered[OF \<open>state c \<noteq> kDisconnected\<close> assms dw nf]
    show ?thesis
      by (auto simp add: high_water_calls_def is_high_water_def)
  qed
qed

lemma sends_high_water:
  assumes "buf_inv (outputBuffer c)"
  shows "\<exists>c'. sends xs c = Inr c' \<and> buf_inv (outputBuffer c')
           \<and> highWaterMark c' = highWaterMark c
           \<and> readableBytes (outputBuffer c) \<le> readableBytes (outputBuffer c')
           \<and> high_water_calls c \<le> high_water_calls c'
           \<and> high_water_calls c' \<le> high_water_calls c
                + (if readableBytes (outputBuffer c) < highWaterMark c
                      \<and> highWaterMark c \<le> readableBytes (outputBuffer c') then 1 else 0)"
  using assms
proof (induction xs arbitrary: c)
  case Nil
  then show ?case by simp
next
  case (Cons x xs)
  obtain d wr where x: "x = (d, wr)" by (cases x)
  from sendInLoop_step[OF Cons.prems, of d wr] obtain c1 where
    c1: "sendInLoop d wr c = Inr c1" "buf_inv (outputBuffer c1)"
        "highWaterMark c1 = highWaterMark c"
        "readableBytes (outputBuffer c) \<le> readableBytes (outputBuffer c1)"
        "high_water_calls c \<le> high_water_calls c1"
        "high_water_calls c1 \<le> high_water_calls c
           + (if readableBytes (outputBuffer c) < highWaterMark c
                 \<and> highWaterMark c \<le> readableBytes (outputBuffer c1) then 1 else 0)"
    by blast
  from Cons.IH[OF c1(2)] obtain c2 where
    c2: "sends xs c1 = Inr c2" "buf_inv (outputBuffer c2)"
        "highWaterMark c2 = highWaterMark c1"
        "readableBytes (outputBuffer c1) \<le> readableBytes (outputBuffer c2)"
        "high_water_calls c1 \<le> high_water_calls c2"
        "high_water_calls c2 \<le> high_water_calls c1
           + (if readableBytes (outputBuffer c1) < highWaterMark c1
                 \<and> highWaterMark c1 \<le> readableBytes (outputBuffer c2) then 1 else 0)"
    by blast
  have "sends (x # xs) c = Inr c2" using x c1(1) c2(1) by simp
  moreover have "readableBytes (outputBuffer c) \<le> readableBytes (outputBuffer c2)"
    using c1(4) c2(4) by simp
  moreover have "high_water_calls c2 \<le> high_water_calls c
                + (if readableBytes (outputBuffer c) < highWaterMark c
                      \<and> highWaterMark c \<le> readableBytes (outputBuffer c2) then 1 else 0)"
    using c1(3,4,6) c2(4,6) by (auto split: if_splits)
  moreover have "high_water_calls c \<le> high_water_calls c2"
    using c1(5) c2(5) by simp
  ultimately show ?case using c2(2,3) c1(3) by simp
qed


text \<open>
  C4. When \<^verbatim>\<open>sendInLoop\<close> is left with \<open>remaining > 0\<close> bytes after the direct write and
  no fault, it returns with these bytes appended to the output buffer, and it has
  queued the high-water callback if and only if the bytes held before (\<^verbatim>\<open>oldLen\<close>) were
  fewer than \<^verbatim>\<open>highWaterMark_\<close>, \<open>oldLen + remaining\<close> is at least \<^verbatim>\<open>highWaterMark_\<close> and the
  callback is set; the argument queued is \<open>oldLen + remaining\<close>. Over any sequence of
  \<^verbatim>\<open>sendInLoop\<close> calls with no drain in between the occupancy never decreases and at most
  one high-water callback is queued, and only if the occupancy went from below the
  mark to the mark or above.
\<close>

theorem sendInLoop_high_water:
  assumes "buf_inv (outputBuffer c)"
  shows "(state c \<noteq> kDisconnected
          \<and> sendInLoop_direct d wr c = (nwrote, remaining, faultError, c1)
          \<and> \<not> faultError \<and> 0 < remaining \<longrightarrow>
            (\<exists>c'. sendInLoop d wr c = Inr c'
               \<and> pendingFunctors c' =
                   (if readableBytes (outputBuffer c) < highWaterMark c
                       \<and> highWaterMark c \<le> readableBytes (outputBuffer c) + remaining
                       \<and> highWaterMarkCallback c
                    then pendingFunctors c
                           @ [HighWaterMarkCallback (readableBytes (outputBuffer c) + remaining)]
                    else pendingFunctors c)
               \<and> readableBytes (outputBuffer c')
                   = readableBytes (outputBuffer c) + remaining))
    \<and> (\<exists>c''. sends xs c = Inr c''
          \<and> readableBytes (outputBuffer c) \<le> readableBytes (outputBuffer c'')
          \<and> high_water_calls c'' \<le> high_water_calls c + 1
          \<and> (high_water_calls c'' \<noteq> high_water_calls c \<longrightarrow>
                readableBytes (outputBuffer c) < highWaterMark c
                \<and> highWaterMark c \<le> readableBytes (outputBuffer c'')))"
proof -
  have a: "\<exists>c'. sendInLoop d wr c = Inr c'
               \<and> pendingFunctors c' =
                   (if readableBytes (outputBuffer c) < highWaterMark c
                       \<and> highWaterMark c \<le> readableBytes (outputBuffer c) + remaining
                       \<and> highWaterMarkCallback c
                    then pendingFunctors c
                           @ [HighWaterMarkCallback (readableBytes (outputBuffer c) + remaining)]
                    else pendingFunctors c)
               \<and> readableBytes (outputBuffer c')
                   = readableBytes (outputBuffer c) + remaining"
    if "state c \<noteq> kDisconnected"
       "sendInLoop_direct d wr c = (nwrote, remaining, faultError, c1)"
       "\<not> faultError" "0 < remaining"
    using sendInLoop_buffered[OF that(1) assms that(2,3,4)] by blast
  from sends_high_water[OF assms, of xs] obtain c2 where
    c2: "sends xs c = Inr c2"
        "readableBytes (outputBuffer c) \<le> readableBytes (outputBuffer c2)"
        "high_water_calls c \<le> high_water_calls c2"
        "high_water_calls c2 \<le> high_water_calls c
           + (if readableBytes (outputBuffer c) < highWaterMark c
                 \<and> highWaterMark c \<le> readableBytes (outputBuffer c2) then 1 else 0)"
    by blast
  have b: "\<exists>c''. sends xs c = Inr c''
          \<and> readableBytes (outputBuffer c) \<le> readableBytes (outputBuffer c'')
          \<and> high_water_calls c'' \<le> high_water_calls c + 1
          \<and> (high_water_calls c'' \<noteq> high_water_calls c \<longrightarrow>
                readableBytes (outputBuffer c) < highWaterMark c
                \<and> highWaterMark c \<le> readableBytes (outputBuffer c''))"
    using c2 by (intro exI[of _ c2]) (auto split: if_splits)
  from a b show ?thesis by blast
qed

theorem sendInLoop_high_water_witness:
  "buf_inv (outputBuffer
      \<lparr>state = kConnected, reading = True,
        channel = \<lparr>isReading = True, isWriting = False\<rparr>,
        inputBuffer = \<lparr>buffer = replicate 12 0, readerIndex = 8, writerIndex = 8\<rparr>,
        outputBuffer = \<lparr>buffer = replicate 12 0, readerIndex = 8, writerIndex = 8\<rparr>,
        highWaterMark = 4, writeCompleteCallback = False, highWaterMarkCallback = True,
        pendingFunctors = [], effects = []\<rparr>)
   \<and> sendInLoop_direct [1, 2, 3, 4, 5] (WriteRoom 1)
        \<lparr>state = kConnected, reading = True,
          channel = \<lparr>isReading = True, isWriting = False\<rparr>,
          inputBuffer = \<lparr>buffer = replicate 12 0, readerIndex = 8, writerIndex = 8\<rparr>,
          outputBuffer = \<lparr>buffer = replicate 12 0, readerIndex = 8, writerIndex = 8\<rparr>,
          highWaterMark = 4, writeCompleteCallback = False, highWaterMarkCallback = True,
          pendingFunctors = [], effects = []\<rparr>
       = (1, 4, False,
          \<lparr>state = kConnected, reading = True,
            channel = \<lparr>isReading = True, isWriting = False\<rparr>,
            inputBuffer = \<lparr>buffer = replicate 12 0, readerIndex = 8, writerIndex = 8\<rparr>,
            outputBuffer = \<lparr>buffer = replicate 12 0, readerIndex = 8, writerIndex = 8\<rparr>,
            highWaterMark = 4, writeCompleteCallback = False, highWaterMarkCallback = True,
            pendingFunctors = [], effects = [SockWrite [1]]\<rparr>)
   \<and> (\<exists>c'. sendInLoop [1, 2, 3, 4, 5] (WriteRoom 1)
        \<lparr>state = kConnected, reading = True,
          channel = \<lparr>isReading = True, isWriting = False\<rparr>,
          inputBuffer = \<lparr>buffer = replicate 12 0, readerIndex = 8, writerIndex = 8\<rparr>,
          outputBuffer = \<lparr>buffer = replicate 12 0, readerIndex = 8, writerIndex = 8\<rparr>,
          highWaterMark = 4, writeCompleteCallback = False, highWaterMarkCallback = True,
          pendingFunctors = [], effects = []\<rparr> = Inr c'
        \<and> pendingFunctors c' = [HighWaterMarkCallback 4]
        \<and> readableBytes (outputBuffer c') = 4)
   \<and> (\<exists>c''. sends [([1, 2, 3, 4, 5], WriteRoom 1), ([6], WriteRoom 0), ([7], WriteRoom 9)]
        \<lparr>state = kConnected, reading = True,
          channel = \<lparr>isReading = True, isWriting = False\<rparr>,
          inputBuffer = \<lparr>buffer = replicate 12 0, readerIndex = 8, writerIndex = 8\<rparr>,
          outputBuffer = \<lparr>buffer = replicate 12 0, readerIndex = 8, writerIndex = 8\<rparr>,
          highWaterMark = 4, writeCompleteCallback = False, highWaterMarkCallback = True,
          pendingFunctors = [], effects = []\<rparr> = Inr c''
        \<and> high_water_calls c'' \<le> 1)"
proof -
  define C where "C =
      \<lparr>state = kConnected, reading = True,
        channel = \<lparr>isReading = True, isWriting = False\<rparr>,
        inputBuffer = \<lparr>buffer = replicate 12 (0 :: byte), readerIndex = 8, writerIndex = 8\<rparr>,
        outputBuffer = \<lparr>buffer = replicate 12 (0 :: byte), readerIndex = 8, writerIndex = 8\<rparr>,
        highWaterMark = 4, writeCompleteCallback = False, highWaterMarkCallback = True,
        pendingFunctors = [], effects = []\<rparr>"
  define C1 where "C1 = emit (SockWrite [1]) C"
  have inv: "buf_inv (outputBuffer C)"
    by (simp add: C_def buf_inv_def kCheapPrepend_def)
  have f: "state C = kConnected" "readableBytes (outputBuffer C) = 0" "highWaterMark C = 4"
    "highWaterMarkCallback C" "pendingFunctors C = []" "high_water_calls C = 0"
    by (simp_all add: C_def readableBytes_def size_sub_def high_water_calls_def)
  have dw: "sendInLoop_direct [1, 2, 3, 4, 5] (WriteRoom 1) C = (1, 4, False, C1)"
    by (simp add: sendInLoop_direct_def sockets_write_def Let_def size_sub_def C1_def)
       (simp add: C_def readableBytes_def size_sub_def)
  have c1: "C1 = C\<lparr> effects := [SockWrite [1]] \<rparr>"
    by (simp add: C1_def emit_def C_def)
  from sendInLoop_high_water[OF inv,
      of "[1, 2, 3, 4, 5]" "WriteRoom 1" 1 4 False C1
         "[([1, 2, 3, 4, 5], WriteRoom 1), ([6], WriteRoom 0), ([7], WriteRoom 9)]"]
  have "(\<exists>c'. sendInLoop [1, 2, 3, 4, 5] (WriteRoom 1) C = Inr c'
           \<and> pendingFunctors c' = [HighWaterMarkCallback 4]
           \<and> readableBytes (outputBuffer c') = 4)
        \<and> (\<exists>c''. sends [([1, 2, 3, 4, 5], WriteRoom 1), ([6], WriteRoom 0), ([7], WriteRoom 9)] C
                    = Inr c''
              \<and> high_water_calls c'' \<le> 1)"
    using dw by (simp add: f) blast
  with inv dw show ?thesis
    unfolding c1 unfolding C_def by simp
qed

lemma readFd_eof:
  assumes "buf_inv b"
  shows "readFd (FdData []) savedErrno b = Inr (0, savedErrno, b)"
  using readFd_fits[OF assms, of "[]" savedErrno] by simp


text \<open>
  A connection as its constructor leaves it, in state \<^verbatim>\<open>kConnecting\<close>: \<^verbatim>\<open>forceClose\<close> does
  nothing, the state stays \<^verbatim>\<open>kConnecting\<close> and nothing is queued.
\<close>

theorem forceClose_connecting_counterexample:
  "TcpConnection_ctor =
     Inr \<lparr>state = kConnecting, reading = True,
           channel = \<lparr>isReading = False, isWriting = False\<rparr>,
           inputBuffer = \<lparr>buffer = replicate 1032 0, readerIndex = 8, writerIndex = 8\<rparr>,
           outputBuffer = \<lparr>buffer = replicate 1032 0, readerIndex = 8, writerIndex = 8\<rparr>,
           highWaterMark = 67108864, writeCompleteCallback = False,
           highWaterMarkCallback = False, pendingFunctors = [], effects = []\<rparr>
   \<and> forceClose
         \<lparr>state = kConnecting, reading = True,
           channel = \<lparr>isReading = False, isWriting = False\<rparr>,
           inputBuffer = \<lparr>buffer = replicate 1032 0, readerIndex = 8, writerIndex = 8\<rparr>,
           outputBuffer = \<lparr>buffer = replicate 1032 0, readerIndex = 8, writerIndex = 8\<rparr>,
           highWaterMark = 67108864, writeCompleteCallback = False,
           highWaterMarkCallback = False, pendingFunctors = [], effects = []\<rparr>
     = \<lparr>state = kConnecting, reading = True,
         channel = \<lparr>isReading = False, isWriting = False\<rparr>,
         inputBuffer = \<lparr>buffer = replicate 1032 0, readerIndex = 8, writerIndex = 8\<rparr>,
         outputBuffer = \<lparr>buffer = replicate 1032 0, readerIndex = 8, writerIndex = 8\<rparr>,
         highWaterMark = 67108864, writeCompleteCallback = False,
         highWaterMarkCallback = False, pendingFunctors = [], effects = []\<rparr>"
  by (simp add: TcpConnection_ctor_def Buffer_ctor_def kInitialSize_def kCheapPrepend_def
      Let_def readableBytes_def writableBytes_def prependableBytes_def size_sub_def
      forceClose_def)


text \<open>
  C6, amended. For every connection whose state is \<^verbatim>\<open>kConnected\<close> or \<^verbatim>\<open>kDisconnecting\<close>,
  \<^verbatim>\<open>forceClose\<close> sets the state to \<^verbatim>\<open>kDisconnecting\<close> and queues \<^verbatim>\<open>forceCloseInLoop\<close>; run by
  the loop, that functor does what a read of 0 bytes does (\<^verbatim>\<open>handleClose\<close>): the state
  becomes \<^verbatim>\<open>kDisconnected\<close>, the channel loses all interest, and the connection callback
  and then the close callback are called. In state \<^verbatim>\<open>kConnecting\<close> and in state
  \<^verbatim>\<open>kDisconnected\<close>, \<^verbatim>\<open>forceClose\<close> does nothing: the connection is as it was, state and
  queue of functors included, and \<^verbatim>\<open>forceCloseInLoop\<close> does nothing either.
\<close>

theorem forceClose_closes:
  "(state c = kConnected \<or> state c = kDisconnecting \<longrightarrow>
      forceClose c = queueInLoop ForceCloseInLoop (c\<lparr> state := kDisconnecting \<rparr>)
      \<and> state (forceClose c) = kDisconnecting
      \<and> pendingFunctors (forceClose c) = pendingFunctors c @ [ForceCloseInLoop]
      \<and> run_task ForceCloseInLoop wr (forceClose c) = forceCloseInLoop (forceClose c)
      \<and> forceCloseInLoop (forceClose c) = handleClose (forceClose c)
      \<and> (buf_inv (inputBuffer c) \<longrightarrow>
            handleRead (FdData []) (forceClose c) = handleClose (forceClose c))
      \<and> (\<exists>c'. forceCloseInLoop (forceClose c) = Inr c'
            \<and> state c' = kDisconnected
            \<and> channel c' = disableAll (channel c)
            \<and> effects c' = effects c @ [ConnectionCallback False, CloseCallback]))
   \<and> (state c = kConnecting \<or> state c = kDisconnected \<longrightarrow>
        forceClose c = c \<and> forceCloseInLoop c = Inr c)"
  (is "(?live \<longrightarrow> ?closes) \<and> (?idle \<longrightarrow> ?nothing)")
proof (rule conjI)
  show "?live \<longrightarrow> ?closes"
  proof (rule impI)
    assume live: ?live
    define c1 where "c1 = queueInLoop ForceCloseInLoop (c\<lparr> state := kDisconnecting \<rparr>)"
    have fc: "forceClose c = c1" using live by (auto simp add: forceClose_def c1_def)
    have f: "state c1 = kDisconnecting"
      "pendingFunctors c1 = pendingFunctors c @ [ForceCloseInLoop]"
      "channel c1 = channel c" "effects c1 = effects c" "inputBuffer c1 = inputBuffer c"
      by (simp_all add: c1_def)
    have rt: "run_task ForceCloseInLoop wr c1 = forceCloseInLoop c1"
      by (simp add: run_task_def)
    have fl: "forceCloseInLoop c1 = handleClose c1"
      by (simp add: forceCloseInLoop_def f)
    have hr: "handleRead (FdData []) c1 = handleClose c1" if "buf_inv (inputBuffer c)"
    proof -
      have e: "c1\<lparr> inputBuffer := inputBuffer c \<rparr> = c1"
        by (simp add: c1_def queueInLoop_def)
      from that show ?thesis by (simp add: handleRead_def readFd_eof f e)
    qed
    have hc: "\<exists>c'. handleClose c1 = Inr c' \<and> state c' = kDisconnected
            \<and> channel c' = disableAll (channel c)
            \<and> effects c' = effects c @ [ConnectionCallback False, CloseCallback]"
      by (simp add: handleClose_def f Let_def)
    show ?closes
      unfolding fc using f rt fl hr hc by (simp add: c1_def[symmetric])
  qed
next
  show "?idle \<longrightarrow> ?nothing"
    by (auto simp add: forceClose_def forceCloseInLoop_def)
qed

theorem forceClose_closes_witness:
  "(state \<lparr>state = kConnected, reading = True,
              channel = \<lparr>isReading = True, isWriting = True\<rparr>,
              inputBuffer = \<lparr>buffer = replicate 12 0, readerIndex = 8, writerIndex = 8\<rparr>,
              outputBuffer = \<lparr>buffer = replicate 12 0, readerIndex = 8, writerIndex = 10\<rparr>,
              highWaterMark = 4, writeCompleteCallback = True, highWaterMarkCallback = True,
              pendingFunctors = [], effects = []\<rparr> = kConnected
    \<or> state \<lparr>state = kConnected, reading = True,
              channel = \<lparr>isReading = True, isWriting = True\<rparr>,
              inputBuffer = \<lparr>buffer = replicate 12 0, readerIndex = 8, writerIndex = 8\<rparr>,
              outputBuffer = \<lparr>buffer = replicate 12 0, readerIndex = 8, writerIndex = 10\<rparr>,
              highWaterMark = 4, writeCompleteCallback = True, highWaterMarkCallback = True,
              pendingFunctors = [], effects = []\<rparr> = kDisconnecting)
   \<and> forceClose
         \<lparr>state = kConnected, reading = True,
              channel = \<lparr>isReading = True, isWriting = True\<rparr>,
              inputBuffer = \<lparr>buffer = replicate 12 0, readerIndex = 8, writerIndex = 8\<rparr>,
              outputBuffer = \<lparr>buffer = replicate 12 0, readerIndex = 8, writerIndex = 10\<rparr>,
              highWaterMark = 4, writeCompleteCallback = True, highWaterMarkCallback = True,
              pendingFunctors = [], effects = []\<rparr>
     = \<lparr>state = kDisconnecting, reading = True,
         channel = \<lparr>isReading = True, isWriting = True\<rparr>,
         inputBuffer = \<lparr>buffer = replicate 12 0, readerIndex = 8, writerIndex = 8\<rparr>,
         outputBuffer = \<lparr>buffer = replicate 12 0, readerIndex = 8, writerIndex = 10\<rparr>,
         highWaterMark = 4, writeCompleteCallback = True, highWaterMarkCallback = True,
         pendingFunctors = [ForceCloseInLoop], effects = []\<rparr>
   \<and> forceCloseInLoop
         \<lparr>state = kDisconnecting, reading = True,
           channel = \<lparr>isReading = True, isWriting = True\<rparr>,
           inputBuffer = \<lparr>buffer = replicate 12 0, readerIndex = 8, writerIndex = 8\<rparr>,
           outputBuffer = \<lparr>buffer = replicate 12 0, readerIndex = 8, writerIndex = 10\<rparr>,
           highWaterMark = 4, writeCompleteCallback = True, highWaterMarkCallback = True,
           pendingFunctors = [ForceCloseInLoop], effects = []\<rparr>
     = Inr \<lparr>state = kDisconnected, reading = True,
         channel = \<lparr>isReading = False, isWriting = False\<rparr>,
         inputBuffer = \<lparr>buffer = replicate 12 0, readerIndex = 8, writerIndex = 8\<rparr>,
         outputBuffer = \<lparr>buffer = replicate 12 0, readerIndex = 8, writerIndex = 10\<rparr>,
         highWaterMark = 4, writeCompleteCallback = True, highWaterMarkCallback = True,
         pendingFunctors = [ForceCloseInLoop],
         effects = [ConnectionCallback False, CloseCallback]\<rparr>
   \<and> (state \<lparr>state = kDisconnected, reading = True,
              channel = \<lparr>isReading = True, isWriting = True\<rparr>,
              inputBuffer = \<lparr>buffer = replicate 12 0, readerIndex = 8, writerIndex = 8\<rparr>,
              outputBuffer = \<lparr>buffer = replicate 12 0, readerIndex = 8, writerIndex = 10\<rparr>,
              highWaterMark = 4, writeCompleteCallback = True, highWaterMarkCallback = True,
              pendingFunctors = [], effects = []\<rparr> = kConnecting
      \<or> state \<lparr>state = kDisconnected, reading = True,
              channel = \<lparr>isReading = True, isWriting = True\<rparr>,
              inputBuffer = \<lparr>buffer = replicate 12 0, readerIndex = 8, writerIndex = 8\<rparr>,
              outputBuffer = \<lparr>buffer = replicate 12 0, readerIndex = 8, writerIndex = 10\<rparr>,
              highWaterMark = 4, writeCompleteCallback = True, highWaterMarkCallback = True,
              pendingFunctors = [], effects = []\<rparr> = kDisconnected)
   \<and> forceClose
         \<lparr>state = kDisconnected, reading = True,
              channel = \<lparr>isReading = True, isWriting = True\<rparr>,
              inputBuffer = \<lparr>buffer = replicate 12 0, readerIndex = 8, writerIndex = 8\<rparr>,
              outputBuffer = \<lparr>buffer = replicate 12 0, readerIndex = 8, writerIndex = 10\<rparr>,
              highWaterMark = 4, writeCompleteCallback = True, highWaterMarkCallback = True,
              pendingFunctors = [], effects = []\<rparr>
     = \<lparr>state = kDisconnected, reading = True,
              channel = \<lparr>isReading = True, isWriting = True\<rparr>,
              inputBuffer = \<lparr>buffer = replicate 12 0, readerIndex = 8, writerIndex = 8\<rparr>,
              outputBuffer = \<lparr>buffer = replicate 12 0, readerIndex = 8, writerIndex = 10\<rparr>,
              highWaterMark = 4, writeCompleteCallback = True, highWaterMarkCallback = True,
              pendingFunctors = [], effects = []\<rparr>
   \<and> forceCloseInLoop
         \<lparr>state = kDisconnected, reading = True,
              channel = \<lparr>isReading = True, isWriting = True\<rparr>,
              inputBuffer = \<lparr>buffer = replicate 12 0, readerIndex = 8, writerIndex = 8\<rparr>,
              outputBuffer = \<lparr>buffer = replicate 12 0, readerIndex = 8, writerIndex = 10\<rparr>,
              highWaterMark = 4, writeCompleteCallback = True, highWaterMarkCallback = True,
              pendingFunctors = [], effects = []\<rparr>
     = Inr \<lparr>state = kDisconnected, reading = True,
              channel = \<lparr>isReading = True, isWriting = True\<rparr>,
              inputBuffer = \<lparr>buffer = replicate 12 0, readerIndex = 8, writerIndex = 8\<rparr>,
              outputBuffer = \<lparr>buffer = replicate 12 0, readerIndex = 8, writerIndex = 10\<rparr>,
              highWaterMark = 4, writeCompleteCallback = True, highWaterMarkCallback = True,
              pendingFunctors = [], effects = []\<rparr>"
proof -
  define C where "C =
        \<lparr>state = kConnected, reading = True,
           channel = \<lparr>isReading = True, isWriting = True\<rparr>,
           inputBuffer = \<lparr>buffer = replicate 12 (0 :: byte), readerIndex = 8, writerIndex = 8\<rparr>,
           outputBuffer = \<lparr>buffer = replicate 12 (0 :: byte), readerIndex = 8, writerIndex = 10\<rparr>,
           highWaterMark = 4, writeCompleteCallback = True, highWaterMarkCallback = True,
           pendingFunctors = [], effects = []\<rparr>"
  define D where "D = C\<lparr> state := kDisconnected \<rparr>"
  have h: "state C = kConnected \<or> state C = kDisconnecting" by (simp add: C_def)
  have i: "state D = kConnecting \<or> state D = kDisconnected" by (simp add: D_def)
  note t = forceClose_closes[of C "WriteRoom 0"]
  note u = forceClose_closes[of D "WriteRoom 0"]
  from t h have a: "forceClose C = queueInLoop ForceCloseInLoop (C\<lparr> state := kDisconnecting \<rparr>)"
    by blast
  from t h have b: "forceCloseInLoop (forceClose C) = handleClose (forceClose C)"
    by blast
  from u i have d: "forceClose D = D" "forceCloseInLoop D = Inr D"
    by blast+
  have "(state C = kConnected \<or> state C = kDisconnecting)
    \<and> forceClose C = C\<lparr> state := kDisconnecting, pendingFunctors := [ForceCloseInLoop] \<rparr>
    \<and> forceCloseInLoop (C\<lparr> state := kDisconnecting, pendingFunctors := [ForceCloseInLoop] \<rparr>)
        = Inr (C\<lparr> state := kDisconnected,
                    channel := \<lparr>isReading = False, isWriting = False\<rparr>,
                    pendingFunctors := [ForceCloseInLoop],
                    effects := [ConnectionCallback False, CloseCallback] \<rparr>)"
    using h a b unfolding C_def
    by (simp add: queueInLoop_def handleClose_def Let_def disableAll_def emit_def)
  with i d show ?thesis
    unfolding D_def C_def by simp
qed


subsection \<open>Shutdown\<close>

lemma sendInLoop_conn:
  assumes "conn_inv c" "sendInLoop d wr c = Inr c'"
  shows "conn_inv c' \<and> half_closes c' = half_closes c"
proof (cases "state c = kDisconnected")
  case True
  with assms show ?thesis by (simp add: sendInLoop_def)
next
  case False
  obtain nwrote remaining faultError c1 where
    dw: "sendInLoop_direct d wr c = (nwrote, remaining, faultError, c1)"
    by (cases "sendInLoop_direct d wr c") auto
  note f = sendInLoop_direct_facts[OF dw]
  have c1: "conn_inv c1" using assms(1) f by (simp add: conn_inv_def)
  show ?thesis
    using assms(2) False c1 f(9)
    by (auto simp add: sendInLoop_def dw Let_def conn_inv_def enableWriting_def
        split: if_splits sum.splits)
qed

lemma shutdownInLoop_conn:
  assumes "conn_inv c"
  shows "conn_inv (shutdownInLoop c)
         \<and> (state c \<noteq> kDisconnected \<longrightarrow> \<not> early_half_close c (shutdownInLoop c))"
  using assms by (auto simp add: shutdownInLoop_def conn_inv_def early_half_close_def)

lemma shutdown_conn:
  assumes "conn_inv c"
  shows "conn_inv (shutdown t c) \<and> \<not> early_half_close c (shutdown t c)"
  using assms
  by (auto simp add: shutdown_def shutdownInLoop_def conn_inv_def early_half_close_def Let_def)

lemma handleClose_conn:
  assumes "handleClose c = Inr c'"
  shows "conn_inv c' \<and> half_closes c' = half_closes c"
  using assms by (auto simp add: handleClose_def conn_inv_def Let_def split: if_splits)

lemma forceClose_conn:
  assumes "conn_inv c"
  shows "conn_inv (forceClose c) \<and> half_closes (forceClose c) = half_closes c"
  using assms by (auto simp add: forceClose_def conn_inv_def)

lemma forceCloseInLoop_conn:
  assumes "conn_inv c" "forceCloseInLoop c = Inr c'"
  shows "conn_inv c' \<and> half_closes c' = half_closes c"
  using assms handleClose_conn[of c c']
  by (auto simp add: forceCloseInLoop_def split: if_splits)

lemma connectDestroyed_conn:
  assumes "conn_inv c"
  shows "conn_inv (connectDestroyed c)
         \<and> half_closes (connectDestroyed c) = half_closes c"
  using assms by (auto simp add: connectDestroyed_def conn_inv_def Let_def)

lemma handleRead_conn:
  assumes "conn_inv c" "handleRead inp c = Inr c'"
  shows "conn_inv c' \<and> half_closes c' = half_closes c"
proof -
  from assms(2) obtain n savedErrno ib where
    rf: "readFd inp 0 (inputBuffer c) = Inr (n, savedErrno, ib)"
    by (auto simp add: handleRead_def split: sum.splits)
  define c1 where "c1 = c\<lparr> inputBuffer := ib \<rparr>"
  have c1: "conn_inv c1" "half_closes c1 = half_closes c"
    using assms(1) by (simp_all add: c1_def conn_inv_def)
  have "c' = emit MessageCallback c1 \<or> handleClose c1 = Inr c' \<or> c' = c1"
    using assms(2) rf
    by (auto simp add: handleRead_def Let_def c1_def handleError_def split: if_splits)
  then show ?thesis
    using c1 handleClose_conn[of c1 c'] by (auto simp add: conn_inv_def)
qed

lemma handleWrite_conn:
  assumes "conn_inv c" "handleWrite wr c = Inr c'"
  shows "conn_inv c' \<and> \<not> early_half_close c c'"
  using assms
  by (auto simp add: handleWrite_def Let_def conn_inv_def early_half_close_def
      shutdownInLoop_def disableWriting_def
      split: if_splits sum.splits)

lemma handleWrite_half_close_only_when_drained:
  assumes "handleWrite wr c = Inr c'" "half_closes c' \<noteq> half_closes c"
  shows "state c = kDisconnecting \<and> isWriting (channel c)
         \<and> readableBytes (outputBuffer c') = 0 \<and> \<not> isWriting (channel c')"
  using assms
  by (auto simp add: handleWrite_def Let_def shutdownInLoop_def disableWriting_def
      split: if_splits sum.splits)

lemma run_task_conn:
  assumes "conn_inv c" "run_task t wr c = Inr c'"
  shows "conn_inv c' \<and> (state c \<noteq> kDisconnected \<longrightarrow> \<not> early_half_close c c')"
proof (cases t)
  case WriteCompleteCallback
  with assms show ?thesis by (auto simp add: run_task_def early_half_close_def)
next
  case (HighWaterMarkCallback n)
  with assms show ?thesis by (auto simp add: run_task_def early_half_close_def)
next
  case (SendInLoop d)
  with assms sendInLoop_conn[of c d wr c'] show ?thesis
    by (auto simp add: run_task_def early_half_close_def)
next
  case ShutdownInLoop
  with assms shutdownInLoop_conn[of c] show ?thesis
    by (auto simp add: run_task_def)
next
  case ForceCloseInLoop
  with assms forceCloseInLoop_conn[of c c'] show ?thesis
    by (auto simp add: run_task_def early_half_close_def)
qed

lemma step_conn:
  assumes "conn_inv c" "step ev c = Inr c'"
  shows "conn_inv c' \<and> (state c \<noteq> kDisconnected \<longrightarrow> \<not> early_half_close c c')"
proof (cases ev)
  case (EvSend d t wr)
  with assms sendInLoop_conn[of c d wr c'] show ?thesis
    by (auto simp add: send_def early_half_close_def conn_inv_def split: if_splits)
next
  case (EvShutdown t)
  with assms shutdown_conn[of c t] show ?thesis by auto
next
  case EvForceClose
  with assms forceClose_conn[of c] show ?thesis by (auto simp add: early_half_close_def)
next
  case (EvHandleWrite wr)
  with assms handleWrite_conn[of c wr c'] show ?thesis by auto
next
  case (EvHandleRead inp)
  with assms handleRead_conn[of c inp c'] show ?thesis by (auto simp add: early_half_close_def)
next
  case EvConnectDestroyed
  with assms connectDestroyed_conn[of c] show ?thesis by (auto simp add: early_half_close_def)
next
  case (EvRunPending wr)
  show ?thesis
  proof (cases "pendingFunctors c")
    case Nil
    with assms EvRunPending show ?thesis by (auto simp add: early_half_close_def)
  next
    case (Cons t ts)
    define c0 where "c0 = c\<lparr> pendingFunctors := ts \<rparr>"
    have c0: "conn_inv c0" "half_closes c0 = half_closes c" "state c0 = state c"
      using assms(1) by (simp_all add: c0_def conn_inv_def)
    have "run_task t wr c0 = Inr c'" using assms(2) EvRunPending Cons by (simp add: c0_def)
    from run_task_conn[OF c0(1) this] c0(2,3) show ?thesis
      by (simp add: early_half_close_def)
  qed
qed

lemma no_early_half_close_live:
  "conn_inv c \<Longrightarrow> \<not> early_half_closes_live evs c"
proof (induction evs arbitrary: c)
  case Nil
  then show ?case by simp
next
  case (Cons ev evs)
  show ?case
  proof (cases "step ev c")
    case (Inl err)
    then show ?thesis by simp
  next
    case (Inr c')
    from step_conn[OF Cons.prems Inr] Cons.IH[of c'] Inr show ?thesis by auto
  qed
qed

lemma conn_inv_established:
  assumes "TcpConnection_ctor = Inr c0" "connectEstablished c0 = Inr c"
  shows "conn_inv c \<and> state c = kConnected \<and> buf_inv (outputBuffer c)"
proof -
  have "kCheapPrepend + kInitialSize < 2 ^ 64"
    by (simp add: kCheapPrepend_def kInitialSize_def)
  from buf_inv_ctor[OF this] obtain b where
    b: "Buffer_ctor kInitialSize = Inr b" "buf_inv b" "readerIndex b = kCheapPrepend"
       "writerIndex b = kCheapPrepend"
    by blast
  have c0: "state c0 = kConnecting" "outputBuffer c0 = b"
    using assms(1) b(1) by (auto simp add: TcpConnection_ctor_def)
  have "readableBytes b = 0" using b by (simp add: readableBytes_def)
  with assms(2) c0 b(2) show ?thesis
    by (auto simp add: connectEstablished_def Let_def conn_inv_def split: if_splits)
qed

text \<open>
  What holds of the half-close as long as the connection is not \<^verbatim>\<open>kDisconnected\<close>.
  \<^verbatim>\<open>shutdown\<close> on a connected connection sets the state to \<^verbatim>\<open>kDisconnecting\<close>.
  \<^verbatim>\<open>shutdownInLoop\<close> closes the write half exactly when the channel's write interest is
  off. \<^verbatim>\<open>handleWrite\<close> closes it only in state \<^verbatim>\<open>kDisconnecting\<close> and only when its write has
  emptied the output buffer, and it does close it then, after the last byte has been
  written. Over every sequence of events, starting from a connection that watches for
  writability whenever its output buffer holds bytes, no step taken while the connection
  is not \<^verbatim>\<open>kDisconnected\<close> closes the write half while the output buffer holds bytes.
\<close>

lemma half_close_while_live:
  assumes "conn_inv c"
  shows "(state c = kConnected \<longrightarrow> state (shutdown t c) = kDisconnecting)
    \<and> shutdownInLoop c = (if isWriting (channel c) then c else emit SockShutdownWrite c)
    \<and> (\<forall>c'. handleWrite wr c = Inr c' \<and> half_closes c' \<noteq> half_closes c \<longrightarrow>
              state c = kDisconnecting \<and> readableBytes (outputBuffer c') = 0)
    \<and> (state c = kDisconnecting \<and> isWriting (channel c) \<and> buf_inv (outputBuffer c)
          \<and> 0 < readableBytes (outputBuffer c) \<and> readableBytes (outputBuffer c) \<le> k \<longrightarrow>
        (\<exists>c'. handleWrite (WriteRoom k) c = Inr c'
           \<and> effects c' = effects c @ [SockWrite (readable (outputBuffer c)), SockShutdownWrite]
           \<and> readableBytes (outputBuffer c') = 0))
    \<and> \<not> early_half_closes_live evs c"
proof -
  have a: "state c = kConnected \<longrightarrow> state (shutdown t c) = kDisconnecting"
    by (simp add: shutdown_def shutdownInLoop_def Let_def)
  have b: "shutdownInLoop c = (if isWriting (channel c) then c else emit SockShutdownWrite c)"
    by (simp add: shutdownInLoop_def)
  have c: "\<forall>c'. handleWrite wr c = Inr c' \<and> half_closes c' \<noteq> half_closes c \<longrightarrow>
              state c = kDisconnecting \<and> readableBytes (outputBuffer c') = 0"
    using handleWrite_half_close_only_when_drained[of wr c] by blast
  have d: "\<exists>c'. handleWrite (WriteRoom k) c = Inr c'
           \<and> effects c' = effects c @ [SockWrite (readable (outputBuffer c)), SockShutdownWrite]
           \<and> readableBytes (outputBuffer c') = 0"
    if h: "state c = kDisconnecting" "isWriting (channel c)" "buf_inv (outputBuffer c)"
      "0 < readableBytes (outputBuffer c)" "readableBytes (outputBuffer c) \<le> k"
  proof -
    define n where "n = readableBytes (outputBuffer c)"
    have len: "length (readable (outputBuffer c)) = n"
      using h(3) by (simp add: length_readable n_def)
    have sw: "sockets_write (WriteRoom k) (readable (outputBuffer c)) = int n"
      using h(5) by (simp add: sockets_write_def len n_def[symmetric])
    have rt: "retrieve n (outputBuffer c) = Inr (retrieveAll (outputBuffer c))"
      by (simp add: retrieve_def n_def)
    have z: "readableBytes (retrieveAll (outputBuffer c)) = 0"
      by (simp add: retrieveAll_def readableBytes_def size_sub_def)
    have tk: "take n (readable (outputBuffer c)) = readable (outputBuffer c)"
      using len by simp
    show ?thesis
      using h(1,2,4)
      by (simp add: handleWrite_def sw rt z tk Let_def n_def[symmetric] shutdownInLoop_def
          disableWriting_def)
  qed
  have e: "\<not> early_half_closes_live evs c"
    using assms by (rule no_early_half_close_live)
  from a b c d e show ?thesis by blast
qed

text \<open>
  C5. The write half is closed while the output buffer still holds an unsent byte. A
  connected connection is sent two bytes and the socket takes one; \<^verbatim>\<open>shutdown\<close> is called
  from another thread, so \<^verbatim>\<open>shutdownInLoop\<close> is queued; the peer closes and \<^verbatim>\<open>handleRead\<close>
  reads 0 bytes, so \<^verbatim>\<open>handleClose\<close> clears the channel's interest and the state is
  \<^verbatim>\<open>kDisconnected\<close>; then the loop runs the queued \<^verbatim>\<open>shutdownInLoop\<close>, which tests nothing
  but the write interest, finds it off and calls \<^verbatim>\<open>shutdownWrite\<close> with the second byte
  still in the output buffer. (\<^verbatim>\<open>sendInLoop\<close> and \<^verbatim>\<open>forceCloseInLoop\<close> test the state first.)
\<close>

theorem shutdown_after_close_half_closes_early:
  "conn_inv \<lparr>state = kConnected, reading = True,
             channel = \<lparr>isReading = True, isWriting = False\<rparr>,
             inputBuffer = \<lparr>buffer = replicate 12 0, readerIndex = 8, writerIndex = 8\<rparr>,
             outputBuffer = \<lparr>buffer = replicate 12 0, readerIndex = 8, writerIndex = 8\<rparr>,
             highWaterMark = 67108864, writeCompleteCallback = False,
             highWaterMarkCallback = False, pendingFunctors = [],
             effects = [ConnectionCallback True]\<rparr>
   \<and> early_half_closes
        [EvSend [1, 2] True (WriteRoom 1), EvShutdown False, EvHandleRead (FdData []),
         EvRunPending (WriteRoom 0)]
        \<lparr>state = kConnected, reading = True,
          channel = \<lparr>isReading = True, isWriting = False\<rparr>,
          inputBuffer = \<lparr>buffer = replicate 12 0, readerIndex = 8, writerIndex = 8\<rparr>,
          outputBuffer = \<lparr>buffer = replicate 12 0, readerIndex = 8, writerIndex = 8\<rparr>,
          highWaterMark = 67108864, writeCompleteCallback = False,
          highWaterMarkCallback = False, pendingFunctors = [],
          effects = [ConnectionCallback True]\<rparr>"
proof -
  define B where "B = \<lparr>buffer = replicate 12 (0 :: byte), readerIndex = 8, writerIndex = 8\<rparr>"
  define B1 where "B1 = \<lparr>buffer = (replicate 12 (0 :: byte))[8 := 2], readerIndex = 8,
                          writerIndex = 9\<rparr>"
  define C0 where "C0 =
        \<lparr>state = kConnected, reading = True,
          channel = \<lparr>isReading = True, isWriting = False\<rparr>,
          inputBuffer = B, outputBuffer = B,
          highWaterMark = 67108864, writeCompleteCallback = False,
          highWaterMarkCallback = False, pendingFunctors = [],
          effects = [ConnectionCallback True]\<rparr>"
  define C1 where "C1 = C0\<lparr> channel := \<lparr>isReading = True, isWriting = True\<rparr>,
                            outputBuffer := B1,
                            effects := [ConnectionCallback True, SockWrite [1]] \<rparr>"
  define C2 where "C2 = C1\<lparr> state := kDisconnecting, pendingFunctors := [ShutdownInLoop] \<rparr>"
  define C3 where "C3 = C2\<lparr> state := kDisconnected,
                            channel := \<lparr>isReading = False, isWriting = False\<rparr>,
                            effects := [ConnectionCallback True, SockWrite [1],
                                        ConnectionCallback False, CloseCallback] \<rparr>"
  define C4 where "C4 = C3\<lparr> pendingFunctors := [],
                            effects := [ConnectionCallback True, SockWrite [1],
                                        ConnectionCallback False, CloseCallback,
                                        SockShutdownWrite] \<rparr>"
  have invB: "buf_inv B" by (simp add: B_def buf_inv_def kCheapPrepend_def)
  have rB: "readableBytes B = 0" "writableBytes B = 4" "readableBytes B1 = 1"
    by (simp_all add: B_def B1_def readableBytes_def writableBytes_def size_sub_def)
  have ap: "append [2] B = Inr B1"
    by (simp add: append_def ensureWritableBytes_def hasWritten_def rB)
       (simp add: B_def B1_def writableBytes_def size_sub_def)
  have s1: "step (EvSend [1, 2] True (WriteRoom 1)) C0 = Inr C1"
    by (simp add: send_def sendInLoop_def sendInLoop_direct_def sockets_write_def Let_def
        size_sub_def C0_def rB ap emit_def enableWriting_def C1_def)
  have s2: "step (EvShutdown False) C1 = Inr C2"
    by (simp add: shutdown_def Let_def queueInLoop_def C1_def C0_def C2_def)
  have s3: "step (EvHandleRead (FdData [])) C2 = Inr C3"
    by (simp add: handleRead_def readFd_eof invB handleClose_def Let_def disableAll_def
        emit_def C2_def C1_def C0_def C3_def)
  have s4: "step (EvRunPending (WriteRoom 0)) C3 = Inr C4"
    by (simp add: run_task_def shutdownInLoop_def emit_def C3_def C2_def C1_def C0_def C4_def)
  have bad: "early_half_close C3 C4"
    by (simp add: early_half_close_def half_closes_def C4_def C3_def C2_def C1_def C0_def rB)
  have inv: "conn_inv C0" by (simp add: conn_inv_def C0_def rB)
  have "early_half_closes
        [EvSend [1, 2] True (WriteRoom 1), EvShutdown False, EvHandleRead (FdData []),
         EvRunPending (WriteRoom 0)] C0"
    by (simp only: early_half_closes.simps s1 s2 s3 s4 sum.case bad simp_thms)
  with inv show ?thesis unfolding C0_def B_def by simp
qed

end
